theory Spec2Isabelle
  imports Main
begin

section \<open>Data model (types.ts)\<close>

text \<open>
  The interfaces of \<^verbatim>\<open>types.ts\<close> as records. Field names are global in a theory, so
  a field whose name a second interface (or HOL) already uses carries a prefix:
  \<^verbatim>\<open>EmailRequest.id\<close> is \<open>emailId\<close>, the fields of \<^verbatim>\<open>EmailAttempt\<close> that
  \<^verbatim>\<open>EmailStatus\<close> has too are \<open>attemptProvider\<close>, \<open>attemptTimestamp\<close>,
  \<open>attemptError\<close>, and those of \<^verbatim>\<open>EmailQueueItem\<close> are \<open>itemTimestamp\<close>,
  \<open>itemRetryCount\<close>. An optional field (\<^verbatim>\<open>provider?\<close>, \<^verbatim>\<open>error?\<close>) is an
  \<open>option\<close>. The optional fields of \<^verbatim>\<open>EmailRequest\<close> (from, cc, bcc, priority,
  retryCount) are read nowhere in the engine and are left out.

  Numbers: counts and sizes (\<^verbatim>\<open>maxRetries\<close>, \<^verbatim>\<open>rateLimitMax\<close>,
  \<^verbatim>\<open>circuitBreakerThreshold\<close>, \<^verbatim>\<open>queueMaxSize\<close>, \<^verbatim>\<open>retryCount\<close>) are
  naturals; clock readings, time spans in milliseconds and queue priorities are
  integers, so that \<^verbatim>\<open>now - t\<close> is the subtraction of the source.
\<close>

record EmailRequest =
  emailId :: string
  to :: string
  subject :: string
  body :: string

datatype State = Pending | Sent | Failed | RateLimited | Queued

record EmailAttempt =
  attemptProvider :: string
  attemptTimestamp :: int
  success :: bool
  attemptError :: "string option"
  duration :: int

record EmailStatus =
  status :: State
  provider :: "string option"
  error :: "string option"
  timestamp :: int
  retryCount :: nat
  attempts :: "EmailAttempt list"

record EmailQueueItem =
  email :: EmailRequest
  priority :: int
  itemTimestamp :: int
  itemRetryCount :: nat

record EmailServiceConfig =
  maxRetries :: nat
  retryDelayMs :: nat
  rateLimitMax :: nat
  rateLimitWindowMs :: int
  circuitBreakerThreshold :: nat
  circuitBreakerTimeoutMs :: int
  queueMaxSize :: nat
  queueProcessIntervalMs :: nat

section \<open>CircuitBreaker (utils/CircuitBreaker.ts)\<close>

text \<open>
  \<^verbatim>\<open>Date.now()\<close> is an input of every method that reads it: the argument \<open>now\<close>.
  A method that mutates the object returns the object after the call.
\<close>

record CircuitBreaker =
  failures :: nat
  lastFailureTime :: int
  threshold :: nat
  timeout :: int

definition newCircuitBreaker :: "nat \<Rightarrow> int \<Rightarrow> CircuitBreaker" where
  "newCircuitBreaker th tmo =
     \<lparr>failures = 0, lastFailureTime = 0, threshold = th, timeout = tmo\<rparr>"

definition reset :: "CircuitBreaker \<Rightarrow> CircuitBreaker" where
  "reset b = b\<lparr>failures := 0\<rparr>"

definition isOpen :: "int \<Rightarrow> CircuitBreaker \<Rightarrow> bool \<times> CircuitBreaker" where
  "isOpen now b =
     (if failures b \<ge> threshold b then
        (if now - lastFailureTime b < timeout b then (True, b)
         else (False, reset b))
      else (False, b))"

definition recordFailure :: "int \<Rightarrow> CircuitBreaker \<Rightarrow> CircuitBreaker" where
  "recordFailure now b = b\<lparr>failures := failures b + 1, lastFailureTime := now\<rparr>"



section \<open>RateLimiter (utils/RateLimiter.ts)\<close>

record RateLimiter =
  requests :: "int list"
  maxRequests :: nat
  interval :: int

definition newRateLimiter :: "nat \<Rightarrow> int \<Rightarrow> RateLimiter" where
  "newRateLimiter m i = \<lparr>requests = [], maxRequests = m, interval = i\<rparr>"

definition allow :: "int \<Rightarrow> RateLimiter \<Rightarrow> bool \<times> RateLimiter" where
  "allow now rl =
     (let kept = filter (\<lambda>t. now - t < interval rl) (requests rl) in
      if length kept < maxRequests rl
      then (True, rl\<lparr>requests := kept @ [now]\<rparr>)
      else (False, rl\<lparr>requests := kept\<rparr>))"

text \<open>
  A run of calls to \<^verbatim>\<open>allow()\<close>, one at each clock reading of the list: the
  readings of the calls that were admitted, in order.
\<close>

fun admitted :: "int list \<Rightarrow> RateLimiter \<Rightarrow> int list" where
  "admitted [] rl = []"
| "admitted (t # ts) rl =
     (case allow t rl of (ok, rl1) \<Rightarrow>
        (if ok then t # admitted ts rl1 else admitted ts rl1))"

text \<open>The timestamps of a list that lie in the trailing window of length \<open>w\<close> at time \<open>T\<close>:
  those \<open>t\<close> with \<open>t \<le> T\<close> and \<open>T - t < w\<close>, the test \<^verbatim>\<open>allow()\<close> prunes with.\<close>

definition inWindow :: "int \<Rightarrow> int \<Rightarrow> int list \<Rightarrow> int list" where
  "inWindow w T ts = filter (\<lambda>t. t \<le> T \<and> T - t < w) ts"

section \<open>EmailQueue (utils/EmailQueue.ts)\<close>

text \<open>
  The array \<^verbatim>\<open>queue\<close> is a list, head first. The field \<^verbatim>\<open>processing\<close> is
  \<open>queueProcessing\<close>. The registered \<^verbatim>\<open>processCallback\<close> is an argument of the
  drain cycle below rather than a field, since in the engine it is a closure over the
  engine that owns the queue.
\<close>

record EmailQueue =
  queue :: "EmailQueueItem list"
  queueProcessing :: bool
  maxSize :: nat

definition newEmailQueue :: "nat \<Rightarrow> EmailQueue" where
  "newEmailQueue m = \<lparr>queue = [], queueProcessing = False, maxSize = m\<rparr>"

text \<open>\<^verbatim>\<open>Array.findIndex\<close>: the index of the first element that satisfies the test,
  \<open>None\<close> for the source's \<open>-1\<close>.\<close>

fun findIndex :: "('a \<Rightarrow> bool) \<Rightarrow> 'a list \<Rightarrow> nat option" where
  "findIndex P [] = None"
| "findIndex P (x # xs) =
     (if P x then Some 0 else map_option Suc (findIndex P xs))"

text \<open>\<^verbatim>\<open>splice(i, 0, item)\<close> for an index within the array.\<close>

definition splice0 :: "nat \<Rightarrow> 'a \<Rightarrow> 'a list \<Rightarrow> 'a list" where
  "splice0 i x xs = take i xs @ [x] @ drop i xs"

definition enqueue :: "int \<Rightarrow> EmailRequest \<Rightarrow> int \<Rightarrow> EmailQueue \<Rightarrow> bool \<times> EmailQueue" where
  "enqueue now e p q =
     (if length (queue q) \<ge> maxSize q then (False, q)
      else
        (let item = \<lparr>email = e, priority = p, itemTimestamp = now, itemRetryCount = 0\<rparr> in
         case findIndex (\<lambda>qItem. priority qItem < p) (queue q) of
           None \<Rightarrow> (True, q\<lparr>queue := queue q @ [item]\<rparr>)
         | Some insertIndex \<Rightarrow> (True, q\<lparr>queue := splice0 insertIndex item (queue q)\<rparr>)))"

text \<open>\<^verbatim>\<open>Array.shift\<close>: \<open>None\<close> on the empty array.\<close>

definition dequeue :: "EmailQueue \<Rightarrow> EmailQueueItem option \<times> EmailQueue" where
  "dequeue q =
     (case queue q of
        [] \<Rightarrow> (None, q)
      | item # rest \<Rightarrow> (Some item, q\<lparr>queue := rest\<rparr>))"

definition size_q :: "EmailQueue \<Rightarrow> nat" where
  "size_q q = length (queue q)"

definition isEmpty :: "EmailQueue \<Rightarrow> bool" where
  "isEmpty q = (length (queue q) = 0)"

definition isFull :: "EmailQueue \<Rightarrow> bool" where
  "isFull q = (length (queue q) \<ge> maxSize q)"

definition clear_q :: "EmailQueue \<Rightarrow> EmailQueue" where
  "clear_q q = q\<lparr>queue := []\<rparr>"

definition stopProcessing :: "EmailQueue \<Rightarrow> EmailQueue" where
  "stopProcessing q = q\<lparr>queueProcessing := False\<rparr>"

subsection \<open>The world outside and the queue's loop\<close>

text \<open>
  The world outside the engine: \<open>clock\<close> is what \<^verbatim>\<open>Date.now()\<close> answers, \<open>chance\<close> the
  state of everything random in the environment (\<^verbatim>\<open>Math.random\<close>, the network).
  Awaiting a timer of \<open>ms\<close> milliseconds moves the clock on by \<open>ms\<close>.
\<close>

record World =
  clock :: int
  chance :: nat

definition sleep :: "nat \<Rightarrow> World \<Rightarrow> World" where
  "sleep ms w = w\<lparr>clock := clock w + int ms\<rparr>"

text \<open>
  One cycle of the loop of \<^verbatim>\<open>startProcessing\<close>, for a callback that acts on a
  context \<open>'c\<close> and on the world: the callback answers \<open>True\<close> when its promise
  resolves and \<open>False\<close> when it rejects. After the cycle the loop sleeps for the interval.
  The re-queue increments \<^verbatim>\<open>item.retryCount\<close> on the item that was taken out of the
  array (\<open>item1\<close>) and then calls \<^verbatim>\<open>enqueue\<close> with that item's request and priority.
\<close>

definition processCycle ::
  "(EmailRequest \<Rightarrow> 'c \<times> World \<Rightarrow> bool \<times> 'c \<times> World) option \<Rightarrow> nat \<Rightarrow>
   EmailQueue \<times> 'c \<times> World \<Rightarrow> EmailQueue \<times> 'c \<times> World" where
  "processCycle processCallback intervalMs qcw =
     (case qcw of (q, c, w) \<Rightarrow>
        (case (case (isEmpty q, processCallback) of
                 (False, Some callback) \<Rightarrow>
                   (case dequeue q of
                      (None, q1) \<Rightarrow> (q1, c, w)
                    | (Some item, q1) \<Rightarrow>
                        (case callback (email item) (c, w) of
                           (True, c1, w1) \<Rightarrow> (q1, c1, w1)
                         | (False, c1, w1) \<Rightarrow>
                             (if itemRetryCount item < 3
                              then
                                (let item1 = item\<lparr>itemRetryCount := itemRetryCount item + 1\<rparr>
                                 in (snd (enqueue (clock w1) (email item1) (priority item1) q1),
                                     c1, w1))
                              else (q1, c1, w1))))
               | _ \<Rightarrow> (q, c, w)) of
           (q2, c2, w2) \<Rightarrow> (q2, c2, sleep intervalMs w2)))"

text \<open>The loop runs while the flag \<^verbatim>\<open>processing\<close> is set: \<open>n\<close> of its cycles.\<close>

fun processCycles ::
  "nat \<Rightarrow> (EmailRequest \<Rightarrow> 'c \<times> World \<Rightarrow> bool \<times> 'c \<times> World) option \<Rightarrow> nat \<Rightarrow>
   EmailQueue \<times> 'c \<times> World \<Rightarrow> EmailQueue \<times> 'c \<times> World" where
  "processCycles 0 cb intervalMs qcw = qcw"
| "processCycles (Suc n) cb intervalMs qcw =
     (if queueProcessing (fst qcw)
      then processCycles n cb intervalMs (processCycle cb intervalMs qcw)
      else qcw)"

definition startProcessing :: "EmailQueue \<Rightarrow> EmailQueue" where
  "startProcessing q = (if queueProcessing q then q else q\<lparr>queueProcessing := True\<rparr>)"

section \<open>EmailService (EmailService.ts)\<close>

text \<open>
  A provider is an external collaborator. Its \<^verbatim>\<open>send\<close> reads the world and answers
  with the outcome of the promise (the message of the rejection as the \<^verbatim>\<open>catch\<close>
  block computes it), the milliseconds the call took and the next state of the
  environment's randomness; \<^verbatim>\<open>isHealthy\<close> likewise. The clock only moves forward: by
  the time a \<^verbatim>\<open>send\<close> takes and by each sleep. Synchronous code takes no time.
\<close>

datatype SendOutcome = Resolved | Rejected string

record EmailProvider =
  name :: string
  send :: "EmailRequest \<Rightarrow> World \<Rightarrow> SendOutcome \<times> nat \<times> nat"
  isHealthy :: "World \<Rightarrow> bool \<times> nat"

text \<open>
  The loop of the queue is an \<^verbatim>\<open>async\<close> function that nobody awaits. The call that
  starts it runs it up to its first pending \<^verbatim>\<open>await\<close>; from there on it is a task of
  its own, resumed by the world. A task waits at one of two places:
  \<^item> \<open>Sending\<close>: inside the callback, in \<^verbatim>\<open>processEmail\<close>, at the first
    \<^verbatim>\<open>await provider.send(email)\<close>. The pipeline holds the request, its Status object
    (\<open>plStatus\<close>; \<open>plInMap\<close> tells whether the Status map still holds this very object
    under the id, that is, whether no later \<^verbatim>\<open>statusMap.set\<close> of the id and no
    \<^verbatim>\<open>statusMap.clear\<close> has replaced it), the provider it is sending through, the
    providers after it, and \<^verbatim>\<open>attemptStart\<close>;
  \<^item> \<open>Sleeping t\<close>: at the timer between two cycles, which fires at \<open>t\<close> or later.
\<close>

record Pipeline =
  plEmail :: EmailRequest
  plStatus :: EmailStatus
  plInMap :: bool
  plProvider :: EmailProvider
  plRest :: "EmailProvider list"
  plStart :: int

datatype LoopTask = Sending Pipeline | Sleeping int

text \<open>
  \<^verbatim>\<open>breakerMap\<close>: the constructor stores a breaker under the name of every provider
  and nothing removes one, so \<^verbatim>\<open>breakerMap.get(provider.name)!\<close> always finds it.
  The model keeps the breakers as a total function of the name; providers of one name
  share a breaker, as in the source. \<^verbatim>\<open>statusMap\<close> holds values: a Status object
  that a call mutates while it is stored under the id is written to the map with its
  final value. \<open>tasks\<close> are the loops that were started and have not ended: more than one
  when the loop is stopped and started again before the old one has woken up.
\<close>

record EmailService =
  providers :: "EmailProvider list"
  statusMap :: "string \<rightharpoonup> EmailStatus"
  rateLimiter :: RateLimiter
  sentEmails :: "string set"
  breakerMap :: "string \<Rightarrow> CircuitBreaker"
  emailQueue :: EmailQueue
  config :: EmailServiceConfig
  processing :: bool
  tasks :: "LoopTask list"

definition defaultConfig :: EmailServiceConfig where
  "defaultConfig =
     \<lparr>maxRetries = 3, retryDelayMs = 100, rateLimitMax = 10, rateLimitWindowMs = 1000,
      circuitBreakerThreshold = 3, circuitBreakerTimeoutMs = 10000,
      queueMaxSize = 1000, queueProcessIntervalMs = 100\<rparr>"

definition newEmailService :: "EmailProvider list \<Rightarrow> EmailServiceConfig \<Rightarrow> EmailService" where
  "newEmailService ps cfg =
     \<lparr>providers = ps,
      statusMap = Map.empty,
      rateLimiter = newRateLimiter (rateLimitMax cfg) (rateLimitWindowMs cfg),
      sentEmails = {},
      breakerMap = (\<lambda>n. newCircuitBreaker (circuitBreakerThreshold cfg) (circuitBreakerTimeoutMs cfg)),
      emailQueue = newEmailQueue (queueMaxSize cfg),
      config = cfg,
      processing = False,
      tasks = []\<rparr>"

text \<open>\<^verbatim>\<open>statusMap.set(id, status)\<close> with a new Status object: a pipeline of the loop
  that is waiting with the object stored before under this id no longer has it in the map.\<close>

fun detach :: "string \<Rightarrow> LoopTask \<Rightarrow> LoopTask" where
  "detach i (Sending pl) =
     Sending (if emailId (plEmail pl) = i then pl\<lparr>plInMap := False\<rparr> else pl)"
| "detach i (Sleeping t) = Sleeping t"

definition setStatus :: "string \<Rightarrow> EmailStatus \<Rightarrow> EmailService \<Rightarrow> EmailService" where
  "setStatus i st s =
     s\<lparr>statusMap := (statusMap s)(i \<mapsto> st), tasks := map (detach i) (tasks s)\<rparr>"

text \<open>The body of the \<^verbatim>\<open>try\<close>/\<^verbatim>\<open>catch\<close> of one attempt from the call of
  \<^verbatim>\<open>send\<close> up to \<^verbatim>\<open>attempt++\<close>, for a given \<^verbatim>\<open>attemptStart\<close>: \<open>True\<close> when
  \<^verbatim>\<open>processEmail\<close> returns from inside the loop.\<close>

definition attemptFrom ::
  "int \<Rightarrow> EmailProvider \<Rightarrow> EmailRequest \<Rightarrow> nat \<Rightarrow> EmailStatus \<Rightarrow> CircuitBreaker \<Rightarrow> World \<Rightarrow>
   bool \<times> EmailStatus \<times> CircuitBreaker \<times> World" where
  "attemptFrom attemptStart p e attempt st b w =
     (case send p e w of (outcome, elapsed, ch) \<Rightarrow>
        (let w1 = \<lparr>clock = clock w + int elapsed, chance = ch\<rparr>;
             attemptDuration = clock w1 - attemptStart in
         case outcome of
           Resolved \<Rightarrow>
             (True,
              st\<lparr>attempts := attempts st @
                    [\<lparr>attemptProvider = name p, attemptTimestamp = clock w1, success = True,
                      attemptError = None, duration = attemptDuration\<rparr>],
                 status := Sent, provider := Some (name p), retryCount := attempt\<rparr>,
              b, w1)
         | Rejected msg \<Rightarrow>
             (False,
              st\<lparr>attempts := attempts st @
                    [\<lparr>attemptProvider = name p, attemptTimestamp = clock w1, success = False,
                      attemptError = Some msg, duration = attemptDuration\<rparr>]\<rparr>,
              recordFailure (clock w1) b, w1)))"

text \<open>One attempt, with \<^verbatim>\<open>const attemptStart = Date.now()\<close> before it.\<close>

definition attemptSend ::
  "EmailProvider \<Rightarrow> EmailRequest \<Rightarrow> nat \<Rightarrow> EmailStatus \<Rightarrow> CircuitBreaker \<Rightarrow> World \<Rightarrow>
   bool \<times> EmailStatus \<times> CircuitBreaker \<times> World" where
  "attemptSend p e attempt st b w =
     (let attemptStart = clock w in attemptFrom attemptStart p e attempt st b w)"

text \<open>The loop \<^verbatim>\<open>while (attempt < this.config.maxRetries)\<close> for one provider.\<close>

function retryLoop ::
  "EmailServiceConfig \<Rightarrow> EmailProvider \<Rightarrow> EmailRequest \<Rightarrow> nat \<Rightarrow> EmailStatus \<Rightarrow>
   CircuitBreaker \<Rightarrow> World \<Rightarrow> bool \<times> EmailStatus \<times> CircuitBreaker \<times> World" where
  "retryLoop cfg p e attempt st b w =
     (if attempt < maxRetries cfg then
        (case attemptSend p e attempt st b w of
           (True, st1, b1, w1) \<Rightarrow> (True, st1, b1, w1)
         | (False, st1, b1, w1) \<Rightarrow>
             retryLoop cfg p e (attempt + 1) st1 b1
               (if attempt + 1 < maxRetries cfg
                then sleep (retryDelayMs cfg * 2 ^ (attempt + 1 - 1)) w1
                else w1))
      else (False, st, b, w))"
  by pat_completeness auto
termination
  by (relation "measure (\<lambda>(cfg, p, e, attempt, st, b, w). maxRetries cfg - attempt)") auto

text \<open>The loop \<^verbatim>\<open>for (const provider of this.providers)\<close>.\<close>

fun tryProviders ::
  "EmailServiceConfig \<Rightarrow> EmailRequest \<Rightarrow> EmailProvider list \<Rightarrow> EmailStatus \<Rightarrow>
   (string \<Rightarrow> CircuitBreaker) \<Rightarrow> World \<Rightarrow>
   bool \<times> EmailStatus \<times> (string \<Rightarrow> CircuitBreaker) \<times> World" where
  "tryProviders cfg e [] st bm w = (False, st, bm, w)"
| "tryProviders cfg e (p # ps) st bm w =
     (case isOpen (clock w) (bm (name p)) of
        (True, b0) \<Rightarrow> tryProviders cfg e ps st (bm(name p := b0)) w
      | (False, b0) \<Rightarrow>
          (case isHealthy p w of
             (False, ch) \<Rightarrow> tryProviders cfg e ps st (bm(name p := b0)) (w\<lparr>chance := ch\<rparr>)
           | (True, ch) \<Rightarrow>
               (case retryLoop cfg p e 0 st b0 (w\<lparr>chance := ch\<rparr>) of
                  (True, st1, b1, w1) \<Rightarrow> (True, st1, bm(name p := b1), w1)
                | (False, st1, b1, w1) \<Rightarrow> tryProviders cfg e ps st1 (bm(name p := b1)) w1)))"

text \<open>
  \<^verbatim>\<open>processEmail\<close> as \<^verbatim>\<open>sendEmail\<close> awaits it: the caller gets the Status when the
  pipeline has ended, and the pipeline runs to its end as one step. The Status object
  stays in the map under the id all the while, so the map ends with its final value.
\<close>

definition processEmail ::
  "EmailRequest \<Rightarrow> EmailService \<times> World \<Rightarrow> EmailStatus \<times> EmailService \<times> World" where
  "processEmail e sw =
     (case sw of (s, w) \<Rightarrow>
        (let st0 = \<lparr>status = Pending, provider = None, error = None, timestamp = clock w,
                    retryCount = 0, attempts = []\<rparr> in
         case tryProviders (config s) e (providers s) st0 (breakerMap s) w of
           (True, st, bm, w1) \<Rightarrow>
             (st,
              (setStatus (emailId e) st s)
                \<lparr>breakerMap := bm, sentEmails := insert (emailId e) (sentEmails s)\<rparr>,
              w1)
         | (False, st, bm, w1) \<Rightarrow>
             (let st' = st\<lparr>status := Failed,
                           error := Some ''All providers failed after retries''\<rparr> in
              (st', (setStatus (emailId e) st' s)\<lparr>breakerMap := bm\<rparr>, w1))))"

text \<open>\<^verbatim>\<open>sendEmail\<close> answers \<^verbatim>\<open>this.statusMap.get(email.id)!\<close> on the idempotent path:
  \<open>None\<close> is JavaScript's \<^verbatim>\<open>undefined\<close>.\<close>

definition sendEmail ::
  "EmailRequest \<Rightarrow> EmailService \<times> World \<Rightarrow> EmailStatus option \<times> EmailService \<times> World" where
  "sendEmail e sw =
     (case sw of (s, w) \<Rightarrow>
        if emailId e \<in> sentEmails s then (statusMap s (emailId e), s, w)
        else
          (case allow (clock w) (rateLimiter s) of
             (False, rl) \<Rightarrow>
               (let st = \<lparr>status = RateLimited, provider = None,
                          error = Some ''Rate limit exceeded'', timestamp = clock w,
                          retryCount = 0, attempts = []\<rparr> in
                (Some st, setStatus (emailId e) st (s\<lparr>rateLimiter := rl\<rparr>), w))
           | (True, rl) \<Rightarrow>
               (case processEmail e (s\<lparr>rateLimiter := rl\<rparr>, w) of
                  (st, s1, w1) \<Rightarrow> (Some st, s1, w1))))"

subsection \<open>The queue's loop in the engine\<close>

text \<open>
  \<^verbatim>\<open>processEmail\<close> as the loop's callback calls it runs in two parts. The first part
  is synchronous: the new \<open>pending\<close> Status is stored, and the loop over the providers
  runs up to the first \<^verbatim>\<open>await\<close>. \<open>admit\<close> is this part of the loop over the providers:
  a provider whose breaker is open or that is unhealthy is skipped, and with
  \<open>maxRetries = 0\<close> the inner loop is entered for no provider. It answers the providers
  from the one whose \<^verbatim>\<open>send\<close> is called on, or none when the loop ran through.
\<close>

fun admit ::
  "EmailServiceConfig \<Rightarrow> EmailProvider list \<Rightarrow> (string \<Rightarrow> CircuitBreaker) \<Rightarrow> World \<Rightarrow>
   EmailProvider list \<times> (string \<Rightarrow> CircuitBreaker) \<times> World" where
  "admit cfg [] bm w = ([], bm, w)"
| "admit cfg (p # ps) bm w =
     (case isOpen (clock w) (bm (name p)) of
        (True, b0) \<Rightarrow> admit cfg ps (bm(name p := b0)) w
      | (False, b0) \<Rightarrow>
          (case isHealthy p w of
             (False, ch) \<Rightarrow> admit cfg ps (bm(name p := b0)) (w\<lparr>chance := ch\<rparr>)
           | (True, ch) \<Rightarrow>
               (if 0 < maxRetries cfg
                then (p # ps, bm(name p := b0), w\<lparr>chance := ch\<rparr>)
                else admit cfg ps (bm(name p := b0)) (w\<lparr>chance := ch\<rparr>))))"

text \<open>
  The second part, when the first \<^verbatim>\<open>send\<close> has answered: the rest of the loop over
  the providers, from the attempt that was waiting (attempt 0 on \<open>p\<close>, started at
  \<open>start\<close>). The breaker is the object of the map, read as it is now.
\<close>

definition finishProviders ::
  "EmailServiceConfig \<Rightarrow> EmailRequest \<Rightarrow> int \<Rightarrow> EmailProvider \<Rightarrow> EmailProvider list \<Rightarrow>
   EmailStatus \<Rightarrow> (string \<Rightarrow> CircuitBreaker) \<Rightarrow> World \<Rightarrow>
   bool \<times> EmailStatus \<times> (string \<Rightarrow> CircuitBreaker) \<times> World" where
  "finishProviders cfg e start p ps st bm w =
     (case attemptFrom start p e 0 st (bm (name p)) w of
        (True, st1, b1, w1) \<Rightarrow> (True, st1, bm(name p := b1), w1)
      | (False, st1, b1, w1) \<Rightarrow>
          (case retryLoop cfg p e (0 + 1) st1 b1
                  (if 0 + 1 < maxRetries cfg
                   then sleep (retryDelayMs cfg * 2 ^ (0 + 1 - 1)) w1
                   else w1) of
             (True, st2, b2, w2) \<Rightarrow> (True, st2, bm(name p := b2), w2)
           | (False, st2, b2, w2) \<Rightarrow> tryProviders cfg e ps st2 (bm(name p := b2)) w2))"

text \<open>
  A pipeline writes to its own Status object; the map shows it when it still holds the
  object.
\<close>

definition writeBack :: "Pipeline \<Rightarrow> EmailStatus \<Rightarrow> EmailService \<Rightarrow> EmailService" where
  "writeBack pl st s =
     (if plInMap pl then s\<lparr>statusMap := (statusMap s)(emailId (plEmail pl) \<mapsto> st)\<rparr> else s)"

definition finishPipeline :: "Pipeline \<Rightarrow> EmailService \<times> World \<Rightarrow> EmailService \<times> World" where
  "finishPipeline pl sw =
     (case sw of (s, w) \<Rightarrow>
        (case finishProviders (config s) (plEmail pl) (plStart pl) (plProvider pl) (plRest pl)
                (plStatus pl) (breakerMap s) w of
           (True, st, bm, w1) \<Rightarrow>
             (writeBack pl st
                (s\<lparr>breakerMap := bm,
                   sentEmails := insert (emailId (plEmail pl)) (sentEmails s)\<rparr>),
              w1)
         | (False, st, bm, w1) \<Rightarrow>
             (writeBack pl
                (st\<lparr>status := Failed, error := Some ''All providers failed after retries''\<rparr>)
                (s\<lparr>breakerMap := bm\<rparr>),
              w1)))"

text \<open>
  The loop of \<^verbatim>\<open>EmailQueue.startProcessing\<close> from the test of \<^verbatim>\<open>while\<close> to the place
  where it waits next, with the callback the constructor registers (which awaits
  \<^verbatim>\<open>processEmail\<close>; \<^verbatim>\<open>processEmail\<close> catches every rejection of a provider, so the
  callback does not reject and the \<^verbatim>\<open>catch\<close> of the loop is not entered). \<open>None\<close>: the
  flag is down and the loop ends. When every provider was skipped, \<^verbatim>\<open>processEmail\<close>
  has run to its end within this part and the loop is at its timer.
\<close>

definition beginCycle :: "EmailService \<times> World \<Rightarrow> LoopTask option \<times> EmailService \<times> World" where
  "beginCycle sw =
     (case sw of (s, w) \<Rightarrow>
        if \<not> queueProcessing (emailQueue s) then (None, s, w)
        else if isEmpty (emailQueue s)
        then (Some (Sleeping (clock w + int (queueProcessIntervalMs (config s)))), s, w)
        else
          (case dequeue (emailQueue s) of
             (None, q) \<Rightarrow>
               (Some (Sleeping (clock w + int (queueProcessIntervalMs (config s)))),
                s\<lparr>emailQueue := q\<rparr>, w)
           | (Some item, q) \<Rightarrow>
               (let e = email item;
                    st0 = \<lparr>status = Pending, provider = None, error = None,
                           timestamp = clock w, retryCount = 0, attempts = []\<rparr>;
                    s1 = setStatus (emailId e) st0 (s\<lparr>emailQueue := q\<rparr>)
                in case admit (config s) (providers s) (breakerMap s) w of
                     ([], bm, w1) \<Rightarrow>
                       (Some (Sleeping (clock w1 + int (queueProcessIntervalMs (config s)))),
                        s1\<lparr>statusMap := (statusMap s1)
                              (emailId e \<mapsto>
                                 st0\<lparr>status := Failed,
                                       error := Some ''All providers failed after retries''\<rparr>),
                           breakerMap := bm\<rparr>,
                        w1)
                   | (p # ps, bm, w1) \<Rightarrow>
                       (Some (Sending \<lparr>plEmail = e, plStatus = st0, plInMap = True,
                                       plProvider = p, plRest = ps, plStart = clock w1\<rparr>),
                        s1\<lparr>breakerMap := bm\<rparr>, w1))))"

text \<open>
  \<^verbatim>\<open>startQueueProcessing\<close>: the engine's flag, then \<^verbatim>\<open>EmailQueue.startProcessing\<close>,
  which returns at once when the queue's flag is up and otherwise raises it and enters
  the loop. The loop runs within this call up to the place where it waits first, and is
  a task from there on.
\<close>

definition startQueueProcessing :: "EmailService \<times> World \<Rightarrow> EmailService \<times> World" where
  "startQueueProcessing sw =
     (case sw of (s, w) \<Rightarrow>
        if processing s then (s, w)
        else
          (let s1 = s\<lparr>processing := True\<rparr> in
           if queueProcessing (emailQueue s1) then (s1, w)
           else
             (case beginCycle (s1\<lparr>emailQueue := startProcessing (emailQueue s1)\<rparr>, w) of
                (None, s2, w2) \<Rightarrow> (s2, w2)
              | (Some task, s2, w2) \<Rightarrow> (s2\<lparr>tasks := tasks s2 @ [task]\<rparr>, w2))))"

definition stopQueueProcessing :: "EmailService \<Rightarrow> EmailService" where
  "stopQueueProcessing s = s\<lparr>processing := False, emailQueue := stopProcessing (emailQueue s)\<rparr>"

definition queueEmail ::
  "EmailRequest \<Rightarrow> int \<Rightarrow> EmailService \<times> World \<Rightarrow> EmailStatus option \<times> EmailService \<times> World" where
  "queueEmail e p sw =
     (case sw of (s, w) \<Rightarrow>
        if emailId e \<in> sentEmails s then (statusMap s (emailId e), s, w)
        else
          (let st0 = \<lparr>status = Queued, provider = None, error = None, timestamp = clock w,
                      retryCount = 0, attempts = []\<rparr> in
           case enqueue (clock w) e p (emailQueue s) of (ok, q) \<Rightarrow>
             (let st = (if \<not> ok then st0\<lparr>status := Failed, error := Some ''Queue is full''\<rparr>
                        else st0);
                  s1 = (setStatus (emailId e) st s)\<lparr>emailQueue := q\<rparr>
              in case (if \<not> processing s1 then startQueueProcessing (s1, w) else (s1, w)) of
                   (s2, w2) \<Rightarrow> (Some st, s2, w2))))"

text \<open>
  The world resumes the \<open>k\<close>-th task. A pipeline that was waiting for its first
  \<^verbatim>\<open>send\<close> runs to its end; the callback returns and the loop goes to its timer. A loop
  at its timer wakes (no earlier than the timer was set for), tests the flag and either
  ends or runs its next cycle up to the place where it waits.
\<close>

definition resume :: "nat \<Rightarrow> EmailService \<times> World \<Rightarrow> EmailService \<times> World" where
  "resume k sw =
     (case sw of (s, w) \<Rightarrow>
        if k < length (tasks s) then
          (case tasks s ! k of
             Sending pl \<Rightarrow>
               (case finishPipeline pl (s, w) of
                  (s1, w1) \<Rightarrow>
                    (s1\<lparr>tasks := (tasks s1)
                           [k := Sleeping (clock w1 + int (queueProcessIntervalMs (config s)))]\<rparr>,
                     w1))
           | Sleeping t \<Rightarrow>
               (case beginCycle (s, w\<lparr>clock := max (clock w) t\<rparr>) of
                  (None, s1, w1) \<Rightarrow>
                    (s1\<lparr>tasks := take k (tasks s1) @ drop (Suc k) (tasks s1)\<rparr>, w1)
                | (Some task, s1, w1) \<Rightarrow> (s1\<lparr>tasks := (tasks s1)[k := task]\<rparr>, w1)))
        else (s, w))"

definition getStatus :: "string \<Rightarrow> EmailService \<Rightarrow> EmailStatus option" where
  "getStatus i s = statusMap s i"

text \<open>\<^verbatim>\<open>clear\<close>: after \<^verbatim>\<open>statusMap.clear()\<close> no waiting pipeline has its Status in
  the map.\<close>

fun detachAll :: "LoopTask \<Rightarrow> LoopTask" where
  "detachAll (Sending pl) = Sending (pl\<lparr>plInMap := False\<rparr>)"
| "detachAll (Sleeping t) = Sleeping t"

definition clear :: "EmailService \<Rightarrow> EmailService" where
  "clear s =
     s\<lparr>statusMap := Map.empty, sentEmails := {}, emailQueue := clear_q (emailQueue s),
       breakerMap := (\<lambda>n. reset (breakerMap s n)), tasks := map detachAll (tasks s)\<rparr>"

text \<open>
  The public operations as steps of the engine, and what the world does between two of
  them: \<open>Resume k\<close> resumes the \<open>k\<close>-th waiting task of the queue's loop, \<open>Elapse d c\<close> lets
  \<open>d\<close> milliseconds pass and leaves the environment's randomness at \<open>c\<close>. A public call is
  a step up to the moment it returns to its caller; a pipeline that was resumed runs to
  its end as one step. So two pipelines never interleave at their later \<^verbatim>\<open>await\<close>
  points.
\<close>

datatype Op =
    SendEmail EmailRequest
  | QueueEmail EmailRequest int
  | StartQueueProcessing
  | StopQueueProcessing
  | Resume nat
  | Clear
  | Elapse nat nat

fun step :: "Op \<Rightarrow> EmailService \<times> World \<Rightarrow> EmailService \<times> World" where
  "step (SendEmail e) sw = snd (sendEmail e sw)"
| "step (QueueEmail e p) sw = snd (queueEmail e p sw)"
| "step StartQueueProcessing sw = startQueueProcessing sw"
| "step StopQueueProcessing (s, w) = (stopQueueProcessing s, w)"
| "step (Resume k) sw = resume k sw"
| "step Clear (s, w) = (clear s, w)"
| "step (Elapse d c) (s, w) = (s, \<lparr>clock = clock w + int d, chance = c\<rparr>)"

fun run :: "Op list \<Rightarrow> EmailService \<times> World \<Rightarrow> EmailService \<times> World" where
  "run [] sw = sw"
| "run (op # ops) sw = run ops (step op sw)"


section \<open>Notions the properties are stated with\<close>

declare retryLoop.simps [simp del]

text \<open>A queue in descending order of priority.\<close>

definition descending :: "EmailQueueItem list \<Rightarrow> bool" where
  "descending xs = sorted_wrt (\<lambda>a b. priority b \<le> priority a) xs"


text \<open>The ids of the pipelines of the loop that wait with their Status in the map.\<close>

fun liveId :: "LoopTask \<Rightarrow> string list" where
  "liveId (Sending pl) = (if plInMap pl then [emailId (plEmail pl)] else [])"
| "liveId (Sleeping t) = []"

definition liveIds :: "EmailService \<Rightarrow> string set" where
  "liveIds s = set (concat (map liveId (tasks s)))"


text \<open>Calling \<^verbatim>\<open>sendEmail\<close> with one request again and again, each call in the world
  the caller finds at that moment: the answers in order and the engine at the end.\<close>

fun sendEmailRepeated ::
  "EmailRequest \<Rightarrow> World list \<Rightarrow> EmailService \<Rightarrow> EmailStatus option list \<times> EmailService" where
  "sendEmailRepeated e [] s = ([], s)"
| "sendEmailRepeated e (w # ws) s =
     (case sendEmail e (s, w) of (r, s1, w1) \<Rightarrow>
        (case sendEmailRepeated e ws s1 of (rs, s2) \<Rightarrow> (r # rs, s2)))"

text \<open>What a provider does in every world: its \<^verbatim>\<open>send\<close> always rejects, always
  resolves; its \<^verbatim>\<open>isHealthy\<close> always answers true.\<close>

definition alwaysFails :: "EmailProvider \<Rightarrow> bool" where
  "alwaysFails p = (\<forall>e w. fst (send p e w) \<noteq> Resolved)"

definition alwaysSucceeds :: "EmailProvider \<Rightarrow> bool" where
  "alwaysSucceeds p = (\<forall>e w. fst (send p e w) = Resolved)"

definition alwaysHealthy :: "EmailProvider \<Rightarrow> bool" where
  "alwaysHealthy p = (\<forall>w. fst (isHealthy p w))"


subsection \<open>Concrete requests, providers and worlds\<close>

definition exampleEmail :: EmailRequest where
  "exampleEmail =
     \<lparr>emailId = ''m1'', to = ''test@example.com'', subject = ''Test Email'',
      body = ''Hello there!''\<rparr>"

definition failingProvider :: EmailProvider where
  "failingProvider =
     \<lparr>name = ''AlwaysFails'', send = (\<lambda>e w. (Rejected ''down'', 5, chance w)),
      isHealthy = (\<lambda>w. (True, chance w))\<rparr>"

definition succeedingProvider :: EmailProvider where
  "succeedingProvider =
     \<lparr>name = ''AlwaysSucceeds'', send = (\<lambda>e w. (Resolved, 7, chance w)),
      isHealthy = (\<lambda>w. (True, chance w))\<rparr>"

text \<open>A provider that delivers while the environment's randomness stands at 0.\<close>

definition flakyProvider :: EmailProvider where
  "flakyProvider =
     \<lparr>name = ''Flaky'',
      send = (\<lambda>e w. (if chance w = 0 then Resolved else Rejected ''down'', 5, chance w)),
      isHealthy = (\<lambda>w. (True, chance w))\<rparr>"

definition startWorld :: World where
  "startWorld = \<lparr>clock = 1000, chance = 0\<rparr>"

text \<open>An engine that has delivered \<open>exampleEmail\<close>.\<close>

definition sentService :: EmailService where
  "sentService = fst (snd (sendEmail exampleEmail
       (newEmailService [succeedingProvider] defaultConfig, startWorld)))"

lemmas ex_defs = exampleEmail_def failingProvider_def succeedingProvider_def flakyProvider_def
  startWorld_def newEmailService_def defaultConfig_def newRateLimiter_def newCircuitBreaker_def
  newEmailQueue_def

lemmas op_defs = sendEmail_def queueEmail_def processEmail_def setStatus_def
  attemptSend_def attemptFrom_def retryLoop.simps isOpen_def reset_def recordFailure_def
  allow_def enqueue_def dequeue_def isEmpty_def sleep_def startQueueProcessing_def
  startProcessing_def stopQueueProcessing_def stopProcessing_def beginCycle_def
  finishProviders_def finishPipeline_def writeBack_def resume_def clear_def clear_q_def
  splice0_def Let_def

section \<open>The circuit breaker's gate\<close>






section \<open>The rate limiter's admission\<close>

lemma set_admitted: "set (admitted ts rl) \<subseteq> set ts"
  by (induction ts arbitrary: rl) (auto split: prod.splits if_splits)

lemma allow_fields:
  "maxRequests (snd (allow t rl)) = maxRequests rl"
  "interval (snd (allow t rl)) = interval rl"
  by (simp_all add: allow_def Let_def)

lemma inWindow_append: "inWindow w T (xs @ ys) = inWindow w T xs @ inWindow w T ys"
  by (simp add: inWindow_def)

lemma inWindow_later: "\<forall>x\<in>set xs. T < x \<Longrightarrow> inWindow w T xs = []"
  by (auto simp: inWindow_def filter_empty_conv)

lemma inWindow_kept:
  "t \<le> T \<Longrightarrow> inWindow w T (filter (\<lambda>r. t - r < w) xs) = inWindow w T xs"
  unfolding inWindow_def filter_filter
  by (rule filter_cong) auto

lemma length_inWindow_le: "length (inWindow w T xs) \<le> length xs"
  by (simp add: inWindow_def)

lemma length_inWindow_filter_le:
  "length (inWindow w T (filter P xs)) \<le> length (inWindow w T xs)"
  unfolding inWindow_def filter_filter
  by (induction xs) auto

text \<open>
  The invariant behind the bound, for a limiter in any state: when the calls come at
  clock readings that do not decrease and no recorded timestamp is later than the calls
  to come, no window holds more than \<open>maxRequests\<close> of the recorded and the admitted
  timestamps together.
\<close>

lemma admitted_window:
  assumes "sorted ts"
      and "\<forall>r\<in>set (requests rl). \<forall>t\<in>set ts. r \<le> t"
      and "\<forall>T. length (inWindow (interval rl) T (requests rl)) \<le> maxRequests rl"
  shows "length (inWindow (interval rl) T (requests rl @ admitted ts rl)) \<le> maxRequests rl"
  using assms
proof (induction ts arbitrary: rl)
  case Nil
  then show ?case by simp
next
  case (Cons t ts)
  let ?W = "interval rl" and ?N = "maxRequests rl"
  let ?kept = "filter (\<lambda>r. t - r < ?W) (requests rl)"
  obtain ok rl1 where al: "allow t rl = (ok, rl1)" by (cases "allow t rl")
  have f1: "interval rl1 = ?W" "maxRequests rl1 = ?N"
    using allow_fields[of t rl] al by simp_all
  have ok_iff: "ok = (length ?kept < ?N)"
    and req1: "requests rl1 = ?kept @ (if ok then [t] else [])"
    using al by (auto simp: allow_def Let_def split: if_splits)
  have sorted_ts: "sorted ts" and t_le: "\<forall>x\<in>set ts. t \<le> x"
    using Cons.prems(1) by simp_all
  have adm_eq: "admitted (t # ts) rl = (if ok then [t] else []) @ admitted ts rl1"
    using al by simp
  have later: "\<forall>x\<in>set ((if ok then [t] else []) @ admitted ts rl1). t \<le> x"
    using t_le set_admitted[of ts rl1] by auto
  have ord1: "\<forall>r\<in>set (requests rl1). \<forall>x\<in>set ts. r \<le> x"
    using Cons.prems(2) t_le by (auto simp: req1)
  have bound1: "\<forall>T. length (inWindow (interval rl1) T (requests rl1)) \<le> maxRequests rl1"
  proof
    fix T'
    show "length (inWindow (interval rl1) T' (requests rl1)) \<le> maxRequests rl1"
    proof (cases ok)
      case True
      then have "length ?kept < ?N" using ok_iff by simp
      moreover have "length (inWindow ?W T' ?kept) \<le> length ?kept"
        by (rule length_inWindow_le)
      moreover have "length (inWindow ?W T' [t]) \<le> 1"
        by (simp add: inWindow_def)
      ultimately show ?thesis
        using True by (simp add: f1 req1 inWindow_append)
    next
      case False
      have "length (inWindow ?W T' ?kept) \<le> length (inWindow ?W T' (requests rl))"
        by (rule length_inWindow_filter_le)
      then show ?thesis
        using False Cons.prems(3) by (simp add: f1 req1) (meson le_trans)
    qed
  qed
  have IH: "length (inWindow ?W T (requests rl1 @ admitted ts rl1)) \<le> ?N"
    using Cons.IH[OF sorted_ts ord1 bound1] by (simp add: f1)
  show ?case
  proof (cases "T < t")
    case True
    have "\<forall>x\<in>set ((if ok then [t] else []) @ admitted ts rl1). T < x"
    proof
      fix x assume "x \<in> set ((if ok then [t] else []) @ admitted ts rl1)"
      then have "t \<le> x" using later by blast
      then show "T < x" using True by simp
    qed
    then have "inWindow ?W T ((if ok then [t] else []) @ admitted ts rl1) = []"
      by (rule inWindow_later)
    then show ?thesis
      using Cons.prems(3) by (simp add: adm_eq inWindow_append del: admitted.simps)
  next
    case False
    then have "inWindow ?W T ?kept = inWindow ?W T (requests rl)"
      by (intro inWindow_kept) simp
    then show ?thesis
      using IH by (simp add: adm_eq req1 inWindow_append del: admitted.simps)
  qed
qed

text \<open>
  Claim C8. A call to \<^verbatim>\<open>allow()\<close> at clock reading \<open>now\<close> keeps of the recorded
  timestamps those inside the trailing window (\<open>now - t < interval\<close>); it answers
  allowed exactly when fewer than \<open>maxRequests\<close> of them remain, and then records \<open>now\<close>
  behind them; denied, it records nothing. Hence, for a limiter \<open>N\<close> per \<open>W\<close> milliseconds
  and calls at clock readings that do not decrease, the window \<open>T - W < t \<le> T\<close> holds at
  most \<open>N\<close> admitted calls, for every \<open>T\<close>.
\<close>

theorem C8_rate_limiter_admission:
  "fst (allow now rl)
     = (length (filter (\<lambda>t. now - t < interval rl) (requests rl)) < maxRequests rl)
   \<and> requests (snd (allow now rl))
     = filter (\<lambda>t. now - t < interval rl) (requests rl) @ (if fst (allow now rl) then [now] else [])
   \<and> maxRequests (snd (allow now rl)) = maxRequests rl
   \<and> interval (snd (allow now rl)) = interval rl
   \<and> (sorted ts \<longrightarrow> length (inWindow W T (admitted ts (newRateLimiter N W))) \<le> N)"
proof -
  have "sorted ts \<Longrightarrow> length (inWindow W T (admitted ts (newRateLimiter N W))) \<le> N"
    using admitted_window[of ts "newRateLimiter N W" T]
    by (simp add: newRateLimiter_def inWindow_def)
  then show ?thesis
    by (simp add: allow_def Let_def)
qed

theorem C8_rate_limiter_admission_witness:
  "sorted [0, 1, 2, 3, 10, 11, 12 :: int]
   \<and> admitted [0, 1, 2, 3, 10, 11, 12] (newRateLimiter 2 10) = [0, 1, 10, 11]
   \<and> length (inWindow 10 12 (admitted [0, 1, 2, 3, 10, 11, 12] (newRateLimiter 2 10))) \<le> 2
   \<and> fst (allow 12 \<lparr>requests = [10, 11], maxRequests = 2, interval = 10\<rparr>) = False"
proof -
  have h: "sorted [0, 1, 2, 3, 10, 11, 12 :: int]" by simp
  have a: "admitted [0, 1, 2, 3, 10, 11, 12] (newRateLimiter 2 10) = [0, 1, 10, 11]"
    by (simp add: allow_def newRateLimiter_def)
  from C8_rate_limiter_admission
         [of 12 "\<lparr>requests = [10, 11], maxRequests = 2, interval = 10\<rparr>"
             "[0, 1, 2, 3, 10, 11, 12]" 10 12 2]
  show ?thesis using h a by simp
qed


section \<open>The priority queue\<close>

lemma findIndex_None: "findIndex P xs = None \<longleftrightarrow> (\<forall>x\<in>set xs. \<not> P x)"
  by (induction xs) auto

lemma findIndex_Some:
  "findIndex P xs = Some i \<Longrightarrow> i = length (takeWhile (\<lambda>x. \<not> P x) xs)"
  by (induction xs arbitrary: i) (auto split: if_splits)

lemma splice0_findIndex:
  "(case findIndex P xs of None \<Rightarrow> xs @ [x] | Some i \<Rightarrow> splice0 i x xs)
     = takeWhile (\<lambda>y. \<not> P y) xs @ [x] @ dropWhile (\<lambda>y. \<not> P y) xs"
proof (cases "findIndex P xs")
  case None
  then have "\<forall>y\<in>set xs. \<not> P y" by (simp add: findIndex_None)
  then show ?thesis
    using None
    by (simp add: takeWhile_eq_all_conv[THEN iffD2] dropWhile_eq_Nil_conv[THEN iffD2])
next
  case (Some i)
  then have "i = length (takeWhile (\<lambda>x. \<not> P x) xs)" by (rule findIndex_Some)
  then show ?thesis using Some
    by (simp add: splice0_def takeWhile_eq_take[symmetric] dropWhile_eq_drop[symmetric])
qed

lemma enqueue_accepts:
  assumes "length (queue q) < maxSize q"
  shows "enqueue now e p q =
     (True, q\<lparr>queue := takeWhile (\<lambda>it. p \<le> priority it) (queue q)
                 @ [\<lparr>email = e, priority = p, itemTimestamp = now, itemRetryCount = 0\<rparr>]
                 @ dropWhile (\<lambda>it. p \<le> priority it) (queue q)\<rparr>)"
proof -
  let ?item = "\<lparr>email = e, priority = p, itemTimestamp = now, itemRetryCount = 0\<rparr>"
  let ?P = "\<lambda>qItem. priority qItem < p"
  have eq: "(\<lambda>y. \<not> ?P y) = (\<lambda>it. p \<le> priority it)" by auto
  have "enqueue now e p q =
      (True, q\<lparr>queue := (case findIndex ?P (queue q) of None \<Rightarrow> queue q @ [?item]
                          | Some i \<Rightarrow> splice0 i ?item (queue q))\<rparr>)"
    using assms by (simp add: enqueue_def Let_def split: option.splits)
  then show ?thesis
    by (simp only: splice0_findIndex eq)
qed

lemma enqueue_full: "maxSize q \<le> length (queue q) \<Longrightarrow> enqueue now e p q = (False, q)"
  by (simp add: enqueue_def)

lemma descending_takeWhile_filter:
  "descending xs \<Longrightarrow>
   takeWhile (\<lambda>it. p \<le> priority it) xs = filter (\<lambda>it. p \<le> priority it) xs"
proof (induction xs)
  case Nil
  then show ?case by simp
next
  case (Cons a xs)
  show ?case
  proof (cases "p \<le> priority a")
    case True
    then show ?thesis using Cons by (simp add: descending_def)
  next
    case False
    then have "\<forall>x\<in>set xs. \<not> p \<le> priority x"
      using Cons.prems by (auto simp: descending_def)
    then have "filter (\<lambda>it. p \<le> priority it) xs = []" by (simp add: filter_empty_conv)
    then show ?thesis using False by simp
  qed
qed

lemma descending_dropWhile_filter:
  "descending xs \<Longrightarrow>
   dropWhile (\<lambda>it. p \<le> priority it) xs = filter (\<lambda>it. priority it < p) xs"
proof (induction xs)
  case Nil
  then show ?case by simp
next
  case (Cons a xs)
  show ?case
  proof (cases "p \<le> priority a")
    case True
    then show ?thesis using Cons by (simp add: descending_def)
  next
    case False
    then have "\<forall>x\<in>set xs. priority x < p" using Cons.prems by (auto simp: descending_def)
    then have "filter (\<lambda>it. priority it < p) xs = xs" by (simp add: filter_id_conv)
    then show ?thesis using False by simp
  qed
qed

lemma length_takeWhile_dropWhile:
  "length (takeWhile P xs) + length (dropWhile P xs) = length xs"
  by (induction xs) auto


lemma descending_insert:
  assumes "descending xs"
  shows "descending (filter (\<lambda>it. p \<le> priority it) xs @ [x\<lparr>priority := p\<rparr>]
                      @ filter (\<lambda>it. priority it < p) xs)"
  using assms unfolding descending_def
  by (auto simp: sorted_wrt_append sorted_wrt_filter)

lemma enqueue_descending:
  assumes "descending (queue q)"
  shows "descending (queue (snd (enqueue now e p q)))"
proof (cases "length (queue q) < maxSize q")
  case True
  show ?thesis
    using descending_insert[OF assms, of p
        "\<lparr>email = e, priority = p, itemTimestamp = now, itemRetryCount = 0\<rparr>"]
    by (simp add: enqueue_accepts[OF True] descending_takeWhile_filter[OF assms]
        descending_dropWhile_filter[OF assms])
next
  case False
  then show ?thesis using assms by (simp add: enqueue_full)
qed

lemma dequeue_head:
  assumes "descending (queue q)" and "dequeue q = (Some h, q1)"
  shows "queue q = h # queue q1 \<and> descending (queue q1)
         \<and> (\<forall>it\<in>set (queue q). priority it \<le> priority h)"
  using assms by (auto simp: dequeue_def descending_def split: list.splits)


section \<open>The engine\<close>

lemma sendEmail_idem:
  "emailId e \<in> sentEmails s \<Longrightarrow> sendEmail e (s, w) = (statusMap s (emailId e), s, w)"
  by (simp add: sendEmail_def)

text \<open>
  Claim C1. When the id of a request is in the sent-set, \<^verbatim>\<open>sendEmail\<close> answers the
  Status stored under that id and changes nothing: the engine (Status map with its
  attempts, rate limiter, breakers, queue) and the world (no provider was called, no
  time has passed) are as before. So it is for any number of repeated calls, whatever
  the world is at each of them.
\<close>

theorem C1_sendEmail_idempotent:
  assumes "emailId e \<in> sentEmails s"
  shows "sendEmail e (s, w) = (statusMap s (emailId e), s, w)
       \<and> sendEmailRepeated e ws s = (replicate (length ws) (statusMap s (emailId e)), s)"
proof -
  have "sendEmailRepeated e ws s = (replicate (length ws) (statusMap s (emailId e)), s)"
    by (induction ws) (simp_all add: sendEmail_idem[OF assms])
  then show ?thesis by (simp add: sendEmail_idem[OF assms])
qed

lemma sentService_sent:
  "emailId exampleEmail \<in> sentEmails sentService
   \<and> map_option (\<lambda>st. (status st, provider st)) (statusMap sentService ''m1'')
       = Some (Sent, Some ''AlwaysSucceeds'')
   \<and> queue (emailQueue sentService) = []"
  by (simp add: sentService_def ex_defs op_defs)

text \<open>The theorem at the engine that has delivered \<open>exampleEmail\<close>: three more calls,
  at different times.\<close>

theorem C1_sendEmail_idempotent_witness:
  "sendEmailRepeated exampleEmail
      [startWorld, \<lparr>clock = 5000, chance = 1\<rparr>, \<lparr>clock = 90000, chance = 2\<rparr>] sentService
     = (replicate 3 (statusMap sentService ''m1''), sentService)
   \<and> map_option (\<lambda>st. (status st, provider st)) (statusMap sentService ''m1'')
       = Some (Sent, Some ''AlwaysSucceeds'')"
proof -
  have h: "emailId exampleEmail \<in> sentEmails sentService"
    using sentService_sent by simp
  have i: "emailId exampleEmail = ''m1''" by (simp add: exampleEmail_def)
  have l: "length [startWorld, \<lparr>clock = 5000, chance = 1\<rparr>, \<lparr>clock = 90000, chance = 2\<rparr>] = 3"
    by simp
  from C1_sendEmail_idempotent [OF h, of startWorld
      "[startWorld, \<lparr>clock = 5000, chance = 1\<rparr>, \<lparr>clock = 90000, chance = 2\<rparr>]"]
  have "sendEmailRepeated exampleEmail
      [startWorld, \<lparr>clock = 5000, chance = 1\<rparr>, \<lparr>clock = 90000, chance = 2\<rparr>] sentService
     = (replicate 3 (statusMap sentService ''m1''), sentService)"
    unfolding i l by blast
  then show ?thesis using sentService_sent by blast
qed


subsection \<open>The retry loop and the loop over the providers\<close>

lemma isOpen_closed_mono:
  assumes "\<not> fst (isOpen t b)" and "t \<le> t'"
  shows "\<not> fst (isOpen t' b)"
  using assms by (auto simp: isOpen_def split: if_splits)

lemma alwaysHealthyD: "alwaysHealthy p \<Longrightarrow> \<exists>ch. isHealthy p w = (True, ch)"
  unfolding alwaysHealthy_def by (cases "isHealthy p w") (auto dest: spec[of _ w])

lemma attemptSend_fails:
  assumes "alwaysFails p"
  shows "\<exists>x b1 w1. attemptSend p e a st b w = (False, st\<lparr>attempts := attempts st @ [x]\<rparr>, b1, w1)
           \<and> attemptProvider x = name p \<and> \<not> success x \<and> clock w \<le> clock w1"
proof -
  obtain outcome elapsed ch where s: "send p e w = (outcome, elapsed, ch)"
    by (cases "send p e w")
  have "outcome \<noteq> Resolved"
    using assms s unfolding alwaysFails_def by (metis fst_conv)
  then obtain msg where "outcome = Rejected msg" by (cases outcome) auto
  then show ?thesis using s
    by (simp add: attemptSend_def attemptFrom_def Let_def) (rule exI, rule conjI, rule refl, simp)
qed

lemma attemptSend_succeeds:
  assumes "alwaysSucceeds p"
  shows "\<exists>x w1. attemptSend p e a st b w
            = (True, st\<lparr>attempts := attempts st @ [x], status := Sent,
                         provider := Some (name p), retryCount := a\<rparr>, b, w1)
           \<and> attemptProvider x = name p \<and> success x \<and> clock w \<le> clock w1"
proof -
  obtain outcome elapsed ch where s: "send p e w = (outcome, elapsed, ch)"
    by (cases "send p e w")
  have "outcome = Resolved"
    using assms s unfolding alwaysSucceeds_def by (metis fst_conv)
  then show ?thesis using s
    by (simp add: attemptSend_def attemptFrom_def Let_def) (rule exI, rule conjI, rule refl, simp)
qed

text \<open>A provider that always fails uses up what is left of its budget: the loop ends
  without a delivery after \<open>maxRetries - a\<close> more failed attempts, and the clock has not
  gone back.\<close>

lemma retryLoop_fails:
  assumes "alwaysFails p"
  shows "\<exists>xs b1 w1. retryLoop cfg p e a st b w = (False, st\<lparr>attempts := attempts st @ xs\<rparr>, b1, w1)
           \<and> map (\<lambda>x. (attemptProvider x, success x)) xs
               = replicate (maxRetries cfg - a) (name p, False)
           \<and> clock w \<le> clock w1"
  using assms
proof (induction cfg p e a st b w rule: retryLoop.induct)
  case (1 cfg p e attempt st b w)
  show ?case
  proof (cases "attempt < maxRetries cfg")
    case False
    then have "retryLoop cfg p e attempt st b w = (False, st\<lparr>attempts := attempts st @ []\<rparr>, b, w)"
      by (simp add: retryLoop.simps)
    then show ?thesis using False by fastforce
  next
    case True
    obtain x b1 w1
      where a: "attemptSend p e attempt st b w = (False, st\<lparr>attempts := attempts st @ [x]\<rparr>, b1, w1)"
        and x: "attemptProvider x = name p" "\<not> success x" and c: "clock w \<le> clock w1"
      using attemptSend_fails[OF "1.prems", of e attempt st b w] by blast
    let ?w2 = "if attempt + 1 < maxRetries cfg
                then sleep (retryDelayMs cfg * 2 ^ (attempt + 1 - 1)) w1 else w1"
    let ?st1 = "st\<lparr>attempts := attempts st @ [x]\<rparr>"
    have c2: "clock w1 \<le> clock ?w2" by (simp add: sleep_def)
    from "1.IH"[OF True a[symmetric] refl refl refl "1.prems"]
    obtain xs b2 w3
      where r: "retryLoop cfg p e (attempt + 1) ?st1 b1 ?w2
                  = (False, ?st1\<lparr>attempts := attempts ?st1 @ xs\<rparr>, b2, w3)"
        and m: "map (\<lambda>x. (attemptProvider x, success x)) xs
                  = replicate (maxRetries cfg - (attempt + 1)) (name p, False)"
        and c3: "clock ?w2 \<le> clock w3"
      by blast
    have "retryLoop cfg p e attempt st b w = (False, st\<lparr>attempts := attempts st @ (x # xs)\<rparr>, b2, w3)"
      using True a r by (subst retryLoop.simps) simp
    moreover have "map (\<lambda>x. (attemptProvider x, success x)) (x # xs)
                     = replicate (maxRetries cfg - attempt) (name p, False)"
    proof -
      have "maxRetries cfg - attempt = Suc (maxRetries cfg - (attempt + 1))" using True by simp
      then show ?thesis using m x by simp
    qed
    moreover have "clock w \<le> clock w3" using c c2 c3 by linarith
    ultimately show ?thesis by blast
  qed
qed

lemma retryLoop_succeeds:
  assumes "alwaysSucceeds p" and "a < maxRetries cfg"
  shows "\<exists>x w1. retryLoop cfg p e a st b w
            = (True, st\<lparr>attempts := attempts st @ [x], status := Sent,
                         provider := Some (name p), retryCount := a\<rparr>, b, w1)
           \<and> attemptProvider x = name p \<and> success x \<and> clock w \<le> clock w1"
proof -
  obtain x w1 where "attemptSend p e a st b w
            = (True, st\<lparr>attempts := attempts st @ [x], status := Sent,
                         provider := Some (name p), retryCount := a\<rparr>, b, w1)"
     and "attemptProvider x = name p" "success x" "clock w \<le> clock w1"
    using attemptSend_succeeds[OF assms(1), of e a st b w] by blast
  then show ?thesis using assms(2) by (subst retryLoop.simps) auto
qed



text \<open>
  Claim C4, amended. Let the provider list begin with a provider that always fails
  and, next, one of another name that always succeeds; both are healthy and the breaker
  of each is closed when processing starts. If \<open>maxRetries\<close> is at least 1, processing a
  request yields the Status stored under its id: state \<open>sent\<close>, provider the second
  provider's name, retry count 0, and as attempts exactly \<open>maxRetries\<close> failed ones on
  the first provider followed by one successful attempt on the second, with nothing
  after it, whatever providers follow in the list. The id is in the sent-set.
\<close>

theorem C4_fallback_first_success:
  assumes "providers s = pf # pg # rest"
      and "alwaysFails pf" and "alwaysHealthy pf"
      and "alwaysSucceeds pg" and "alwaysHealthy pg"
      and "name pf \<noteq> name pg"
      and "\<not> fst (isOpen (clock w) (breakerMap s (name pf)))"
      and "\<not> fst (isOpen (clock w) (breakerMap s (name pg)))"
      and "0 < maxRetries (config s)"
  shows "\<exists>st s1 w1. processEmail e (s, w) = (st, s1, w1)
           \<and> status st = Sent \<and> provider st = Some (name pg) \<and> retryCount st = 0
           \<and> map (\<lambda>x. (attemptProvider x, success x)) (attempts st)
               = replicate (maxRetries (config s)) (name pf, False) @ [(name pg, True)]
           \<and> statusMap s1 (emailId e) = Some st \<and> emailId e \<in> sentEmails s1"
proof -
  let ?cfg = "config s"
  let ?st0 = "\<lparr>status = Pending, provider = None, error = None, timestamp = clock w,
                    retryCount = 0, attempts = []\<rparr>"
  obtain b0 where o: "isOpen (clock w) (breakerMap s (name pf)) = (False, b0)"
    using assms(7) by (cases "isOpen (clock w) (breakerMap s (name pf))") auto
  obtain ch where h: "isHealthy pf w = (True, ch)"
    using alwaysHealthyD[OF assms(3)] by blast
  obtain xs b1 w1
    where r: "retryLoop ?cfg pf e 0 ?st0 b0 (w\<lparr>chance := ch\<rparr>)
                = (False, ?st0\<lparr>attempts := attempts ?st0 @ xs\<rparr>, b1, w1)"
      and m: "map (\<lambda>x. (attemptProvider x, success x)) xs
                = replicate (maxRetries ?cfg - 0) (name pf, False)"
      and c: "clock (w\<lparr>chance := ch\<rparr>) \<le> clock w1"
    using retryLoop_fails[OF assms(2), of ?cfg e 0 ?st0 b0 "w\<lparr>chance := ch\<rparr>"] by blast
  let ?st1 = "?st0\<lparr>attempts := attempts ?st0 @ xs\<rparr>"
  let ?bm1 = "(breakerMap s)(name pf := b1)"
  have cw: "clock w \<le> clock w1" using c by simp
  have "\<not> fst (isOpen (clock w1) (breakerMap s (name pg)))"
    by (rule isOpen_closed_mono[OF assms(8) cw])
  then obtain b2 where o2: "isOpen (clock w1) (?bm1 (name pg)) = (False, b2)"
    using assms(6) by (cases "isOpen (clock w1) (breakerMap s (name pg))") auto
  obtain ch2 where h2: "isHealthy pg w1 = (True, ch2)"
    using alwaysHealthyD[OF assms(5)] by blast
  obtain x w2
    where r2: "retryLoop ?cfg pg e 0 ?st1 b2 (w1\<lparr>chance := ch2\<rparr>)
            = (True, ?st1\<lparr>attempts := attempts ?st1 @ [x], status := Sent,
                         provider := Some (name pg), retryCount := 0\<rparr>, b2, w2)"
      and x: "attemptProvider x = name pg" "success x"
    using retryLoop_succeeds[OF assms(4) assms(9), of e ?st1 b2 "w1\<lparr>chance := ch2\<rparr>"] by blast
  have "tryProviders ?cfg e (providers s) ?st0 (breakerMap s) w
          = (True, ?st1\<lparr>attempts := attempts ?st1 @ [x], status := Sent,
                         provider := Some (name pg), retryCount := 0\<rparr>, ?bm1(name pg := b2), w2)"
    using o h r o2 h2 r2 by (simp add: assms(1))
  then show ?thesis
    using m x by (simp add: processEmail_def setStatus_def Let_def)
qed

text \<open>The theorem at the list of \<open>failingProvider\<close> and \<open>succeedingProvider\<close> under the
  default configuration (three attempts per provider).\<close>

theorem C4_fallback_first_success_witness:
  "\<exists>st s1 w1. processEmail exampleEmail
        (newEmailService [failingProvider, succeedingProvider] defaultConfig, startWorld)
        = (st, s1, w1)
     \<and> status st = Sent \<and> provider st = Some ''AlwaysSucceeds'' \<and> retryCount st = 0
     \<and> map (\<lambda>x. (attemptProvider x, success x)) (attempts st)
         = [(''AlwaysFails'', False), (''AlwaysFails'', False), (''AlwaysFails'', False),
            (''AlwaysSucceeds'', True)]
     \<and> statusMap s1 ''m1'' = Some st \<and> ''m1'' \<in> sentEmails s1"
proof -
  let ?s = "newEmailService [failingProvider, succeedingProvider] defaultConfig"
  have h1: "providers ?s = failingProvider # succeedingProvider # []"
    by (simp add: newEmailService_def)
  have h2: "alwaysFails failingProvider" and h3: "alwaysHealthy failingProvider"
    and h4: "alwaysSucceeds succeedingProvider" and h5: "alwaysHealthy succeedingProvider"
    and h6: "name failingProvider \<noteq> name succeedingProvider"
    by (simp_all add: alwaysFails_def alwaysSucceeds_def alwaysHealthy_def
        failingProvider_def succeedingProvider_def)
  have h7: "\<not> fst (isOpen (clock startWorld) (breakerMap ?s (name failingProvider)))"
    and h8: "\<not> fst (isOpen (clock startWorld) (breakerMap ?s (name succeedingProvider)))"
    and h9: "0 < maxRetries (config ?s)"
    by (simp_all add: ex_defs isOpen_def)
  have n: "name succeedingProvider = ''AlwaysSucceeds''" "name failingProvider = ''AlwaysFails''"
    "emailId exampleEmail = ''m1''" "maxRetries (config ?s) = 3"
    by (simp_all add: ex_defs)
  from C4_fallback_first_success [OF h1 h2 h3 h4 h5 h6 h7 h8 h9, of exampleEmail]
  show ?thesis unfolding n by (simp add: eval_nat_numeral)
qed

text \<open>
  The claim as it stands fails where \<open>maxRetries\<close> is 0: the loop
  \<^verbatim>\<open>while (attempt < maxRetries)\<close> is entered for no provider, so nothing is
  attempted and the Status is \<open>failed\<close>, although the first provider always fails, the
  second always succeeds, both are healthy and both breakers are closed.
\<close>

theorem C4_no_attempt_without_retries:
  "alwaysFails failingProvider \<and> alwaysHealthy failingProvider
   \<and> alwaysSucceeds succeedingProvider \<and> alwaysHealthy succeedingProvider
   \<and> \<not> fst (isOpen (clock startWorld) (newCircuitBreaker 3 10000))
   \<and> (case processEmail exampleEmail
            (newEmailService [failingProvider, succeedingProvider]
               (defaultConfig\<lparr>maxRetries := 0\<rparr>),
             startWorld) of
        (st, s1, w1) \<Rightarrow>
          (status st, provider st, attempts st, emailId exampleEmail \<in> sentEmails s1))
      = (Failed, None, [], False)"
  by (simp add: ex_defs op_defs alwaysFails_def alwaysSucceeds_def alwaysHealthy_def)




subsection \<open>The loop's callback is processEmail\<close>

text \<open>
  The loop over the providers in its two parts, \<open>admit\<close> up to the first \<^verbatim>\<open>send\<close> and
  \<open>finishProviders\<close> from there, is \<open>tryProviders\<close> when nothing happens in between.
\<close>

lemma tryProviders_split:
  "tryProviders cfg e ps st bm w =
     (case admit cfg ps bm w of
        ([], bm1, w1) \<Rightarrow> (False, st, bm1, w1)
      | (p # rest, bm1, w1) \<Rightarrow> finishProviders cfg e (clock w1) p rest st bm1 w1)"
proof (induction ps arbitrary: bm w)
  case Nil
  then show ?case by simp
next
  case (Cons p ps)
  obtain isop b0 where op: "isOpen (clock w) (bm (name p)) = (isop, b0)"
    by (cases "isOpen (clock w) (bm (name p))")
  obtain h ch where he: "isHealthy p w = (h, ch)" by (cases "isHealthy p w")
  show ?case
  proof (cases "\<not> isop \<and> h \<and> 0 < maxRetries cfg")
    case False
    let ?bm = "bm(name p := b0)"
    have "\<exists>w'. tryProviders cfg e (p # ps) st bm w = tryProviders cfg e ps st ?bm w'
             \<and> admit cfg (p # ps) bm w = admit cfg ps ?bm w'"
      using False op he
      by (cases isop; cases h) ((simp add: retryLoop.simps, blast)+)
    then obtain w' where
      t: "tryProviders cfg e (p # ps) st bm w = tryProviders cfg e ps st ?bm w'" and
      a: "admit cfg (p # ps) bm w = admit cfg ps ?bm w'"
      by blast
    show ?thesis by (simp only: t a Cons.IH)
  next
    case True
    let ?w = "w\<lparr>chance := ch\<rparr>"
    have r: "retryLoop cfg p e 0 st b0 ?w =
       (case attemptFrom (clock ?w) p e 0 st b0 ?w of
           (True, st1, b1, w1) \<Rightarrow> (True, st1, b1, w1)
         | (False, st1, b1, w1) \<Rightarrow>
             retryLoop cfg p e (0 + 1) st1 b1
               (if 0 + 1 < maxRetries cfg
                then sleep (retryDelayMs cfg * 2 ^ (0 + 1 - 1)) w1
                else w1))"
      using True by (subst retryLoop.simps) (simp add: attemptSend_def)
    show ?thesis
      using True op he
      by (simp add: r finishProviders_def split: prod.splits bool.splits)
  qed
qed

text \<open>
  So a cycle of the loop whose pipeline is resumed before anything else happens does
  to the engine what \<^verbatim>\<open>processEmail\<close> does with the request at the head of the queue.
\<close>

lemma cycle_is_processEmail:
  assumes "queueProcessing (emailQueue s)" and "queue (emailQueue s) = h # rest"
      and "tasks s = []"
      and "beginCycle (s, w) = (Some (Sending pl), s1, w1)"
  shows "finishPipeline pl (s1, w1)
           = snd (processEmail (email h) (s\<lparr>emailQueue := (emailQueue s)\<lparr>queue := rest\<rparr>\<rparr>, w))"
proof -
  let ?st0 = "\<lparr>status = Pending, provider = None, error = None,
                           timestamp = clock w, retryCount = 0, attempts = []\<rparr>"
  obtain ps bm w' where a: "admit (config s) (providers s) (breakerMap s) w = (ps, bm, w')"
    by (cases "admit (config s) (providers s) (breakerMap s) w") auto
  obtain p ps' where ps: "ps = p # ps'"
    using assms a
    by (cases ps) (auto simp: beginCycle_def isEmpty_def dequeue_def Let_def)
  have pl: "pl = \<lparr>plEmail = email h, plStatus = ?st0, plInMap = True,
                  plProvider = p, plRest = ps', plStart = clock w'\<rparr>"
    and w1: "w1 = w'"
    and s1: "s1 = (setStatus (emailId (email h)) ?st0
                    (s\<lparr>emailQueue := (emailQueue s)\<lparr>queue := rest\<rparr>\<rparr>))\<lparr>breakerMap := bm\<rparr>"
    using assms a ps
    by (auto simp: beginCycle_def isEmpty_def dequeue_def Let_def)
  have t: "tryProviders (config s) (email h) (providers s) ?st0 (breakerMap s) w
             = finishProviders (config s) (email h) (clock w') p ps' ?st0 bm w'"
    by (simp add: tryProviders_split a ps)
  show ?thesis
    unfolding pl w1 s1
    by (simp add: finishPipeline_def processEmail_def writeBack_def setStatus_def assms(3) t
        Let_def split: prod.splits bool.splits)
qed

subsection \<open>What an operation leaves alone\<close>

lemma liveId_detach: "set (liveId (detach j t)) \<subseteq> set (liveId t) - {j}"
  by (cases t) auto

lemma liveIds_map_detach:
  "set (concat (map liveId (map (detach j) ts))) \<subseteq> set (concat (map liveId ts)) - {j}"
  using liveId_detach by (induction ts) fastforce+

lemma setStatus_fields:
  "statusMap (setStatus j st s) = (statusMap s)(j \<mapsto> st)"
  "sentEmails (setStatus j st s) = sentEmails s"
  "emailQueue (setStatus j st s) = emailQueue s"
  "breakerMap (setStatus j st s) = breakerMap s"
  "config (setStatus j st s) = config s"
  "providers (setStatus j st s) = providers s"
  "processing (setStatus j st s) = processing s"
  "rateLimiter (setStatus j st s) = rateLimiter s"
  "tasks (setStatus j st s) = map (detach j) (tasks s)"
  by (simp_all add: setStatus_def)

lemma liveIds_setStatus: "liveIds (setStatus j st s) \<subseteq> liveIds s - {j}"
  using liveIds_map_detach[of j "tasks s"] by (simp add: liveIds_def setStatus_fields)



lemma processEmail_frame:
  assumes "processEmail e (s, w) = (st, s1, w1)"
  shows "statusMap s1 = (statusMap s)(emailId e \<mapsto> st)
       \<and> sentEmails s \<subseteq> sentEmails s1 \<and> sentEmails s1 \<subseteq> insert (emailId e) (sentEmails s)
       \<and> emailQueue s1 = emailQueue s \<and> rateLimiter s1 = rateLimiter s
       \<and> providers s1 = providers s \<and> config s1 = config s \<and> processing s1 = processing s
       \<and> tasks s1 = map (detach (emailId e)) (tasks s)"
  using assms
  by (auto simp: processEmail_def setStatus_def Let_def split: prod.splits bool.splits)

text \<open>What \<^verbatim>\<open>sendEmail\<close> leaves alone.\<close>

lemma sendEmail_frame:
  "(emailId e \<in> sentEmails s \<longrightarrow> fst (snd (sendEmail e (s, w))) = s)
   \<and> (\<forall>i. i \<noteq> emailId e \<longrightarrow> statusMap (fst (snd (sendEmail e (s, w)))) i = statusMap s i)
   \<and> sentEmails s \<subseteq> sentEmails (fst (snd (sendEmail e (s, w))))
   \<and> emailQueue (fst (snd (sendEmail e (s, w)))) = emailQueue s
   \<and> processing (fst (snd (sendEmail e (s, w)))) = processing s
   \<and> liveIds (fst (snd (sendEmail e (s, w)))) \<subseteq> liveIds s"
proof (cases "emailId e \<in> sentEmails s")
  case True
  then show ?thesis by (simp add: sendEmail_def)
next
  case False
  obtain ok rl where al: "allow (clock w) (rateLimiter s) = (ok, rl)"
    by (cases "allow (clock w) (rateLimiter s)")
  have lr: "liveIds (s\<lparr>rateLimiter := rl\<rparr>) = liveIds s" by (simp add: liveIds_def)
  show ?thesis
  proof (cases ok)
    case False
    then show ?thesis
      using \<open>emailId e \<notin> sentEmails s\<close> al lr
        liveIds_setStatus[of "emailId e" _ "s\<lparr>rateLimiter := rl\<rparr>"]
      by (auto simp: sendEmail_def Let_def setStatus_fields)
  next
    case True
    obtain st s1 w1 where p: "processEmail e (s\<lparr>rateLimiter := rl\<rparr>, w) = (st, s1, w1)"
      by (cases "processEmail e (s\<lparr>rateLimiter := rl\<rparr>, w)") auto
    have r: "fst (snd (sendEmail e (s, w))) = s1"
      using \<open>emailId e \<notin> sentEmails s\<close> al True p by (simp add: sendEmail_def)
    have "liveIds s1 \<subseteq> liveIds s"
      using processEmail_frame[OF p] liveIds_map_detach[of "emailId e" "tasks s"]
      by (auto simp: liveIds_def)
    then show ?thesis
      unfolding r using processEmail_frame[OF p] \<open>emailId e \<notin> sentEmails s\<close> by auto
  qed
qed

text \<open>The synchronous part of a cycle.\<close>

lemma beginCycle_idle:
  assumes "\<not> queueProcessing (emailQueue s) \<or> queue (emailQueue s) = []"
  shows "\<exists>t. beginCycle (s, w) = (t, s, w) \<and> (\<forall>task. t = Some task \<longrightarrow> liveId task = [])"
  using assms by (auto simp: beginCycle_def isEmpty_def)

lemma beginCycle_head:
  assumes "queueProcessing (emailQueue s)" and "queue (emailQueue s) = h # rest"
  shows "\<exists>task st s1 w1. beginCycle (s, w) = (Some task, s1, w1)
           \<and> statusMap s1 = (statusMap s)(emailId (email h) \<mapsto> st)
           \<and> attempts st = [] \<and> timestamp st = clock w
           \<and> (status st = Pending \<or> status st = Failed
                \<and> error st = Some ''All providers failed after retries'')
           \<and> sentEmails s1 = sentEmails s
           \<and> emailQueue s1 = (emailQueue s)\<lparr>queue := rest\<rparr>
           \<and> tasks s1 = map (detach (emailId (email h))) (tasks s)
           \<and> set (liveId task) \<subseteq> {emailId (email h)}
           \<and> processing s1 = processing s"
proof -
  obtain ps bm w1 where a: "admit (config s) (providers s) (breakerMap s) w = (ps, bm, w1)"
    by (cases "admit (config s) (providers s) (breakerMap s) w") auto
  show ?thesis
    using assms a
    by (cases ps)
       (simp_all add: beginCycle_def isEmpty_def dequeue_def Let_def setStatus_def,
        (rule exI, rule conjI, rule refl, simp)+)
qed

lemma finishPipeline_frame:
  assumes "finishPipeline pl (s, w) = (s1, w1)"
  shows "(\<forall>i. (plInMap pl \<longrightarrow> i \<noteq> emailId (plEmail pl)) \<longrightarrow> statusMap s1 i = statusMap s i)
       \<and> sentEmails s \<subseteq> sentEmails s1
       \<and> emailQueue s1 = emailQueue s \<and> tasks s1 = tasks s \<and> processing s1 = processing s"
  using assms
  by (auto simp: finishPipeline_def writeBack_def split: prod.splits bool.splits if_splits)









text \<open>What the start of the loop does to the map.\<close>

lemma start_statusMap:
  "(\<forall>h rest. queue (emailQueue s) = h # rest \<longrightarrow> emailId (email h) \<noteq> j)
      \<longrightarrow> statusMap (fst (startQueueProcessing (s, w))) j = statusMap s j"
  "statusMap s j = Some st \<and> attempts st = [] \<and> timestamp st = clock w
      \<longrightarrow> (\<exists>st'. statusMap (fst (startQueueProcessing (s, w))) j = Some st'
                  \<and> attempts st' = [] \<and> timestamp st' = clock w)"
proof -
  let ?s1 = "s\<lparr>processing := True, emailQueue := startProcessing (emailQueue s)\<rparr>"
  have sp: "queueProcessing (emailQueue ?s1)" "queue (emailQueue ?s1) = queue (emailQueue s)"
    "statusMap ?s1 = statusMap s"
    by (simp_all add: startProcessing_def)
  obtain t s2 w2 where b: "beginCycle (?s1, w) = (t, s2, w2)"
    by (cases "beginCycle (?s1, w)") auto
  have r: "\<not> processing s \<Longrightarrow> \<not> queueProcessing (emailQueue s)
            \<Longrightarrow> statusMap (fst (startQueueProcessing (s, w))) = statusMap s2"
    using b by (cases t) (simp_all add: startQueueProcessing_def Let_def)
  have n: "processing s \<or> queueProcessing (emailQueue s)
            \<Longrightarrow> statusMap (fst (startQueueProcessing (s, w))) = statusMap s"
    by (auto simp: startQueueProcessing_def Let_def)
  have m: "queue (emailQueue s) = [] \<Longrightarrow> statusMap s2 = statusMap s"
    using beginCycle_idle[of ?s1 w] b sp by auto
  have hd: "\<And>h rest. queue (emailQueue s) = h # rest \<Longrightarrow>
      \<exists>st2. statusMap s2 = (statusMap s)(emailId (email h) \<mapsto> st2) \<and> attempts st2 = []
              \<and> timestamp st2 = clock w"
  proof -
    fix h rest assume q: "queue (emailQueue s) = h # rest"
    from beginCycle_head[OF sp(1), of h rest w] q sp b show
      "\<exists>st2. statusMap s2 = (statusMap s)(emailId (email h) \<mapsto> st2) \<and> attempts st2 = []
              \<and> timestamp st2 = clock w"
      by auto
  qed
  show "(\<forall>h rest. queue (emailQueue s) = h # rest \<longrightarrow> emailId (email h) \<noteq> j)
      \<longrightarrow> statusMap (fst (startQueueProcessing (s, w))) j = statusMap s j"
  proof (cases "processing s \<or> queueProcessing (emailQueue s)")
    case True
    then show ?thesis using n by simp
  next
    case False
    then show ?thesis using r m hd by (cases "queue (emailQueue s)") fastforce+
  qed
  show "statusMap s j = Some st \<and> attempts st = [] \<and> timestamp st = clock w
      \<longrightarrow> (\<exists>st'. statusMap (fst (startQueueProcessing (s, w))) j = Some st'
                  \<and> attempts st' = [] \<and> timestamp st' = clock w)"
  proof (cases "processing s \<or> queueProcessing (emailQueue s)")
    case True
    then show ?thesis using n by simp
  next
    case False
    then show ?thesis using r m hd by (cases "queue (emailQueue s)") fastforce+
  qed
qed






subsection \<open>The queue inside the engine\<close>

lemma beginCycle_descending:
  assumes "descending (queue (emailQueue s))" and "beginCycle (s, w) = (t, s1, w1)"
  shows "descending (queue (emailQueue s1))"
proof (cases "queueProcessing (emailQueue s) \<and> queue (emailQueue s) \<noteq> []")
  case False
  then have "\<not> queueProcessing (emailQueue s) \<or> queue (emailQueue s) = []" by blast
  from beginCycle_idle[OF this, of w] assms show ?thesis by auto
next
  case True
  then obtain h rest where q: "queue (emailQueue s) = h # rest"
    by (cases "queue (emailQueue s)") auto
  from beginCycle_head[OF conjunct1[OF True] q, of w] assms(2)
  have "emailQueue s1 = (emailQueue s)\<lparr>queue := rest\<rparr>" by auto
  then show ?thesis using assms(1) q by (simp add: descending_def)
qed

lemma start_descending:
  assumes "descending (queue (emailQueue s))"
  shows "descending (queue (emailQueue (fst (startQueueProcessing (s, w)))))"
proof (cases "processing s \<or> queueProcessing (emailQueue s)")
  case True
  then show ?thesis using assms by (auto simp: startQueueProcessing_def Let_def)
next
  case False
  let ?s1 = "s\<lparr>processing := True, emailQueue := startProcessing (emailQueue s)\<rparr>"
  have d1: "descending (queue (emailQueue ?s1))" using assms by (simp add: startProcessing_def)
  obtain t s2 w2 where b: "beginCycle (?s1, w) = (t, s2, w2)"
    by (cases "beginCycle (?s1, w)") auto
  note k = beginCycle_descending[OF d1 b]
  show ?thesis using False b k by (cases t) (simp_all add: startQueueProcessing_def Let_def)
qed

lemma queueEmail_descending:
  assumes "descending (queue (emailQueue s))"
  shows "descending (queue (emailQueue (fst (snd (queueEmail e p (s, w))))))"
proof (cases "emailId e \<in> sentEmails s")
  case True
  then show ?thesis using assms by (simp add: queueEmail_def)
next
  case False
  obtain ok q where en: "enqueue (clock w) e p (emailQueue s) = (ok, q)"
    by (cases "enqueue (clock w) e p (emailQueue s)")
  let ?st0 = "\<lparr>status = Queued, provider = None, error = None, timestamp = clock w,
                      retryCount = 0, attempts = []\<rparr>"
  let ?st = "if \<not> ok then ?st0\<lparr>status := Failed, error := Some ''Queue is full''\<rparr> else ?st0"
  let ?s1 = "(setStatus (emailId e) ?st s)\<lparr>emailQueue := q\<rparr>"
  have d1: "descending (queue (emailQueue ?s1))"
    using enqueue_descending[OF assms, of "clock w" e p] en by simp
  have r: "snd (queueEmail e p (s, w))
             = (if \<not> processing ?s1 then startQueueProcessing (?s1, w) else (?s1, w))"
    using False en by (simp add: queueEmail_def Let_def split: prod.splits)
  show ?thesis
    unfolding r using start_descending[OF d1, of w] d1 by auto
qed

lemma resume_descending:
  assumes "descending (queue (emailQueue s))"
  shows "descending (queue (emailQueue (fst (resume k (s, w)))))"
proof (cases "k < length (tasks s)")
  case False
  then show ?thesis using assms by (simp add: resume_def)
next
  case True
  show ?thesis
  proof (cases "tasks s ! k")
    case (Sending pl)
    obtain s1 w1 where f: "finishPipeline pl (s, w) = (s1, w1)"
      by (cases "finishPipeline pl (s, w)")
    show ?thesis using True Sending f finishPipeline_frame[OF f] assms by (simp add: resume_def)
  next
    case (Sleeping t)
    obtain tk s1 w1 where b: "beginCycle (s, w\<lparr>clock := max (clock w) t\<rparr>) = (tk, s1, w1)"
      by (cases "beginCycle (s, w\<lparr>clock := max (clock w) t\<rparr>)") auto
    show ?thesis using True Sleeping b beginCycle_descending[OF assms b]
      by (cases tk) (simp_all add: resume_def)
  qed
qed

lemma step_descending:
  assumes "descending (queue (emailQueue s))"
  shows "descending (queue (emailQueue (fst (step op (s, w)))))"
proof (cases op)
  case (SendEmail e)
  then show ?thesis using assms sendEmail_frame[of e s w] by simp
next
  case (QueueEmail e p)
  then show ?thesis using queueEmail_descending[OF assms, of e p w] by simp
next
  case StartQueueProcessing
  then show ?thesis using start_descending[OF assms, of w] by simp
next
  case (Resume k)
  then show ?thesis using resume_descending[OF assms, of k w] by simp
qed (use assms in \<open>simp_all add: stopQueueProcessing_def stopProcessing_def clear_def
        clear_q_def descending_def\<close>)

lemma run_descending:
  assumes "descending (queue (emailQueue s))"
  shows "descending (queue (emailQueue (fst (run ops (s, w)))))"
  using assms
proof (induction ops arbitrary: s w)
  case Nil
  then show ?case by simp
next
  case (Cons op ops)
  obtain s1 w1 where st: "step op (s, w) = (s1, w1)" by (cases "step op (s, w)")
  have "descending (queue (emailQueue s1))"
    using step_descending[OF Cons.prems, of op w] st by simp
  then show ?case using Cons.IH[of s1 w1] st by simp
qed

lemma reachable_descending:
  "descending (queue (emailQueue (fst (run ops (newEmailService ps cfg, w)))))"
  by (rule run_descending) (simp add: newEmailService_def newEmailQueue_def descending_def)

text \<open>
  Claim C7. Priorities are integers. The queue of an engine is in descending order of
  priority after any operations on a new engine. On a queue in descending order,
  \<^verbatim>\<open>enqueue\<close> leaves the queue in descending order; an entry it accepts stands behind
  every entry waiting with the same or a higher priority and before every entry with a
  lower one, the entries that were waiting keeping their order (first in, first out
  within a priority). \<^verbatim>\<open>dequeue\<close> on a queue that holds entries removes the head and
  answers it, the rest staying as it was; no waiting entry has a higher priority than the
  head. On the empty queue it answers nothing. In particular, on a new queue with room
  for two, enqueuing a request at priority 1, then one at priority 10, and dequeuing
  gives the priority-10 request, then the priority-1 request, then nothing.
\<close>

theorem C7_priority_order:
  assumes "descending (queue q)"
  shows "descending (queue (snd (enqueue now e p q)))
     \<and> (length (queue q) < maxSize q \<longrightarrow>
          fst (enqueue now e p q)
          \<and> queue (snd (enqueue now e p q))
              = filter (\<lambda>it. p \<le> priority it) (queue q)
                @ [\<lparr>email = e, priority = p, itemTimestamp = now, itemRetryCount = 0\<rparr>]
                @ filter (\<lambda>it. priority it < p) (queue q))
     \<and> (\<forall>h rest. queue q = h # rest \<longrightarrow>
          dequeue q = (Some h, q\<lparr>queue := rest\<rparr>)
          \<and> (\<forall>it\<in>set rest. priority it \<le> priority h))
     \<and> (\<forall>h q1. dequeue q = (Some h, q1) \<longrightarrow>
          queue q = h # queue q1 \<and> descending (queue q1)
          \<and> (\<forall>it\<in>set (queue q). priority it \<le> priority h))
     \<and> (queue q = [] \<longrightarrow> dequeue q = (None, q))
     \<and> (2 \<le> m \<longrightarrow>
          map (\<lambda>q'. map_option (\<lambda>it. (email it, priority it)) (fst (dequeue q')))
            (let q2 = snd (enqueue t2 e2 10 (snd (enqueue t1 e1 1 (newEmailQueue m))))
             in [q2, snd (dequeue q2), snd (dequeue (snd (dequeue q2)))])
          = [Some (e2, 10), Some (e1, 1), None])
     \<and> descending (queue (emailQueue (fst (run ops (newEmailService ps cfg, w0)))))"
proof -
  have a: "descending (queue (snd (enqueue now e p q)))"
    by (rule enqueue_descending[OF assms])
  have b: "length (queue q) < maxSize q \<Longrightarrow>
          fst (enqueue now e p q)
          \<and> queue (snd (enqueue now e p q))
              = filter (\<lambda>it. p \<le> priority it) (queue q)
                @ [\<lparr>email = e, priority = p, itemTimestamp = now, itemRetryCount = 0\<rparr>]
                @ filter (\<lambda>it. priority it < p) (queue q)"
    by (simp add: enqueue_accepts descending_takeWhile_filter[OF assms]
        descending_dropWhile_filter[OF assms])
  have s: "\<And>h rest. queue q = h # rest \<Longrightarrow>
          dequeue q = (Some h, q\<lparr>queue := rest\<rparr>)
          \<and> (\<forall>it\<in>set rest. priority it \<le> priority h)"
    using assms by (simp add: dequeue_def descending_def)
  have c: "\<And>h q1. dequeue q = (Some h, q1) \<Longrightarrow>
          queue q = h # queue q1 \<and> descending (queue q1)
          \<and> (\<forall>it\<in>set (queue q). priority it \<le> priority h)"
    using dequeue_head[OF assms] by blast
  have c': "queue q = [] \<Longrightarrow> dequeue q = (None, q)"
    by (simp add: dequeue_def)
  have d: "2 \<le> m \<Longrightarrow>
          map (\<lambda>q'. map_option (\<lambda>it. (email it, priority it)) (fst (dequeue q')))
            (let q2 = snd (enqueue t2 e2 10 (snd (enqueue t1 e1 1 (newEmailQueue m))))
             in [q2, snd (dequeue q2), snd (dequeue (snd (dequeue q2)))])
          = [Some (e2, 10), Some (e1, 1), None]"
    by (simp add: enqueue_def newEmailQueue_def dequeue_def splice0_def Let_def)
  have r: "descending (queue (emailQueue (fst (run ops (newEmailService ps cfg, w0)))))"
    by (rule reachable_descending)
  show ?thesis using a b s c c' d r by blast
qed

text \<open>The theorem at a queue that holds priorities 10 and 1, which takes a request at
  priority 5 and from which the head is dequeued, and at the new queue of capacity
  1000.\<close>

theorem C7_priority_order_witness:
  "map priority (queue (snd (enqueue 3 exampleEmail 5
      \<lparr>queue = [\<lparr>email = exampleEmail, priority = 10, itemTimestamp = 2, itemRetryCount = 0\<rparr>,
                 \<lparr>email = exampleEmail, priority = 1, itemTimestamp = 1, itemRetryCount = 0\<rparr>],
        queueProcessing = False, maxSize = 1000\<rparr>))) = [10, 5, 1]
   \<and> dequeue
      \<lparr>queue = [\<lparr>email = exampleEmail, priority = 10, itemTimestamp = 2, itemRetryCount = 0\<rparr>,
                 \<lparr>email = exampleEmail, priority = 1, itemTimestamp = 1, itemRetryCount = 0\<rparr>],
        queueProcessing = False, maxSize = 1000\<rparr>
       = (Some \<lparr>email = exampleEmail, priority = 10, itemTimestamp = 2, itemRetryCount = 0\<rparr>,
          \<lparr>queue = [\<lparr>email = exampleEmail, priority = 1, itemTimestamp = 1,
                      itemRetryCount = 0\<rparr>],
            queueProcessing = False, maxSize = 1000\<rparr>)
   \<and> map (\<lambda>q'. map_option (\<lambda>it. (emailId (email it), priority it)) (fst (dequeue q')))
        (let q2 = snd (enqueue 2 (exampleEmail\<lparr>emailId := ''high''\<rparr>) 10
                    (snd (enqueue 1 (exampleEmail\<lparr>emailId := ''low''\<rparr>) 1 (newEmailQueue 1000))))
         in [q2, snd (dequeue q2), snd (dequeue (snd (dequeue q2)))])
      = [Some (''high'', 10), Some (''low'', 1), None]"
proof -
  let ?h = "\<lparr>email = exampleEmail, priority = 10, itemTimestamp = 2, itemRetryCount = 0\<rparr>"
  let ?l = "\<lparr>email = exampleEmail, priority = 1, itemTimestamp = 1, itemRetryCount = 0\<rparr>"
  let ?q = "\<lparr>queue = [?h, ?l], queueProcessing = False, maxSize = 1000\<rparr>"
  have h: "descending (queue ?q)" by (simp add: descending_def)
  have r: "length (queue ?q) < maxSize ?q" and m: "(2::nat) \<le> 1000"
    and hd: "queue ?q = ?h # [?l]" by simp_all
  note t = C7_priority_order [OF h, of 3 exampleEmail 5 1000 2
      "exampleEmail\<lparr>emailId := ''high''\<rparr>" 1 "exampleEmail\<lparr>emailId := ''low''\<rparr>"]
  from t r have A: "queue (snd (enqueue 3 exampleEmail 5 ?q))
              = filter (\<lambda>it. 5 \<le> priority it) (queue ?q)
                @ [\<lparr>email = exampleEmail, priority = 5, itemTimestamp = 3, itemRetryCount = 0\<rparr>]
                @ filter (\<lambda>it. priority it < 5) (queue ?q)"
    by blast
  from t m have B:
    "map (\<lambda>q'. map_option (\<lambda>it. (email it, priority it)) (fst (dequeue q')))
        (let q2 = snd (enqueue 2 (exampleEmail\<lparr>emailId := ''high''\<rparr>) 10
                    (snd (enqueue 1 (exampleEmail\<lparr>emailId := ''low''\<rparr>) 1 (newEmailQueue 1000))))
         in [q2, snd (dequeue q2), snd (dequeue (snd (dequeue q2)))])
      = [Some (exampleEmail\<lparr>emailId := ''high''\<rparr>, 10),
         Some (exampleEmail\<lparr>emailId := ''low''\<rparr>, 1), None]"
    by blast
  from t hd have C: "dequeue ?q = (Some ?h, ?q\<lparr>queue := [?l]\<rparr>)"
    by blast
  have A': "map priority (queue (snd (enqueue 3 exampleEmail 5 ?q))) = [10, 5, 1]"
    unfolding A by simp
  have B': "map (\<lambda>q'. map_option (\<lambda>it. (emailId (email it), priority it)) (fst (dequeue q')))
        (let q2 = snd (enqueue 2 (exampleEmail\<lparr>emailId := ''high''\<rparr>) 10
                    (snd (enqueue 1 (exampleEmail\<lparr>emailId := ''low''\<rparr>) 1 (newEmailQueue 1000))))
         in [q2, snd (dequeue q2), snd (dequeue (snd (dequeue q2)))])
      = [Some (''high'', 10), Some (''low'', 1), None]"
    using arg_cong[OF B, of "map (map_option (\<lambda>(e, p). (emailId e, p)))"]
    by (simp add: Let_def option.map_comp comp_def)
  have C': "dequeue ?q = (Some ?h, \<lparr>queue = [?l], queueProcessing = False, maxSize = 1000\<rparr>)"
    using C by simp
  show ?thesis using A' B' C' by blast
qed

text \<open>
  Claim C9, amended. While the queue holds at least \<open>maxSize\<close> entries, \<^verbatim>\<open>enqueue\<close>
  answers false and leaves the queue as it is, so its size stays where it was; a queue
  within its capacity stays within it after any \<^verbatim>\<open>enqueue\<close>. A call of
  \<^verbatim>\<open>queueEmail\<close> that reaches \<^verbatim>\<open>enqueue\<close> (the id is not in the sent-set) and whose
  \<^verbatim>\<open>enqueue\<close> fails returns a Status of state \<open>failed\<close> with error ``Queue is full''
  and no attempts. When the engine's loop is running (its flag \<^verbatim>\<open>processing\<close> is up),
  this is the Status stored under the request's id when the call returns, and queue and
  world are as they were. When the call starts the loop, the loop's first cycle runs
  within the call; the Status stored under the request's id is the one returned if the
  queue is empty or the entry at its head has another id.
\<close>

theorem C9_queue_full:
  "(maxSize q \<le> length (queue q) \<longrightarrow>
      enqueue now e p q = (False, q) \<and> size_q (snd (enqueue now e p q)) = size_q q)
   \<and> (length (queue q) \<le> maxSize q \<longrightarrow> size_q (snd (enqueue now e p q)) \<le> maxSize q)
   \<and> (emailId e \<notin> sentEmails s \<and> \<not> fst (enqueue (clock w) e p (emailQueue s)) \<longrightarrow>
        (\<exists>st s' w'. queueEmail e p (s, w) = (Some st, s', w')
           \<and> status st = Failed \<and> error st = Some ''Queue is full'' \<and> attempts st = []
           \<and> (processing s \<longrightarrow>
                statusMap s' (emailId e) = Some st \<and> emailQueue s' = emailQueue s \<and> w' = w)
           \<and> ((\<forall>h rest. queue (emailQueue s) = h # rest \<longrightarrow> emailId (email h) \<noteq> emailId e)
                \<longrightarrow> statusMap s' (emailId e) = Some st)))"
proof -
  have a: "maxSize q \<le> length (queue q) \<Longrightarrow>
      enqueue now e p q = (False, q) \<and> size_q (snd (enqueue now e p q)) = size_q q"
    by (simp add: enqueue_full)
  have b: "length (queue q) \<le> maxSize q \<Longrightarrow> size_q (snd (enqueue now e p q)) \<le> maxSize q"
    by (cases "length (queue q) < maxSize q")
       (simp_all add: enqueue_accepts enqueue_full size_q_def length_takeWhile_dropWhile)
  have c: "emailId e \<notin> sentEmails s \<Longrightarrow> \<not> fst (enqueue (clock w) e p (emailQueue s)) \<Longrightarrow>
        (\<exists>st s' w'. queueEmail e p (s, w) = (Some st, s', w')
           \<and> status st = Failed \<and> error st = Some ''Queue is full'' \<and> attempts st = []
           \<and> (processing s \<longrightarrow>
                statusMap s' (emailId e) = Some st \<and> emailQueue s' = emailQueue s \<and> w' = w)
           \<and> ((\<forall>h rest. queue (emailQueue s) = h # rest \<longrightarrow> emailId (email h) \<noteq> emailId e)
                \<longrightarrow> statusMap s' (emailId e) = Some st))"
  proof -
    assume n: "emailId e \<notin> sentEmails s" and f: "\<not> fst (enqueue (clock w) e p (emailQueue s))"
    have full: "maxSize (emailQueue s) \<le> length (queue (emailQueue s))"
      using f by (cases "length (queue (emailQueue s)) < maxSize (emailQueue s)")
                 (simp_all add: enqueue_accepts)
    let ?st = "\<lparr>status = Failed, provider = None, error = Some ''Queue is full'',
                timestamp = clock w, retryCount = 0, attempts = []\<rparr>"
    let ?s1 = "(setStatus (emailId e) ?st s)\<lparr>emailQueue := emailQueue s\<rparr>"
    have r: "queueEmail e p (s, w)
               = (Some ?st, if \<not> processing s then startQueueProcessing (?s1, w) else (?s1, w))"
      using n by (simp add: queueEmail_def enqueue_full[OF full] Let_def setStatus_fields
          split: prod.splits)
    have f1: "statusMap ?s1 (emailId e) = Some ?st" "emailQueue ?s1 = emailQueue s"
      by (simp_all add: setStatus_fields)
    show ?thesis
    proof (cases "processing s")
      case True
      then show ?thesis unfolding r using f1 by simp
    next
      case False
      obtain s' w' where st: "startQueueProcessing (?s1, w) = (s', w')"
        by (cases "startQueueProcessing (?s1, w)")
      have "(\<forall>h rest. queue (emailQueue s) = h # rest \<longrightarrow> emailId (email h) \<noteq> emailId e)
                \<longrightarrow> statusMap s' (emailId e) = Some ?st"
        using start_statusMap(1)[of ?s1 "emailId e" w] st f1 by simp
      then show ?thesis unfolding r using False st by simp
    qed
  qed
  show ?thesis using a b c by blast
qed

text \<open>The theorem at a queue of capacity 1 that holds one entry, and at an engine whose
  queue of capacity 1 holds an entry of another request while its loop is running.\<close>

theorem C9_queue_full_witness:
  "enqueue 7 exampleEmail 3
     \<lparr>queue = [\<lparr>email = exampleEmail, priority = 1, itemTimestamp = 1, itemRetryCount = 0\<rparr>],
       queueProcessing = False, maxSize = 1\<rparr>
     = (False,
        \<lparr>queue = [\<lparr>email = exampleEmail, priority = 1, itemTimestamp = 1, itemRetryCount = 0\<rparr>],
          queueProcessing = False, maxSize = 1\<rparr>)
   \<and> (\<exists>st s' w'. queueEmail exampleEmail 3
                  (run [QueueEmail (exampleEmail\<lparr>emailId := ''m0''\<rparr>) 0, Resume 0,
                        QueueEmail (exampleEmail\<lparr>emailId := ''m2''\<rparr>) 0]
                     (newEmailService [succeedingProvider] (defaultConfig\<lparr>queueMaxSize := 1\<rparr>),
                      startWorld)) = (Some st, s', w')
        \<and> statusMap s' ''m1'' = Some st
        \<and> status st = Failed \<and> error st = Some ''Queue is full''
        \<and> map (\<lambda>it. emailId (email it)) (queue (emailQueue s')) = [''m2''])"
proof -
  let ?q = "\<lparr>queue = [\<lparr>email = exampleEmail, priority = 1, itemTimestamp = 1, itemRetryCount = 0\<rparr>],
       queueProcessing = False, maxSize = 1\<rparr>"
  let ?r = "run [QueueEmail (exampleEmail\<lparr>emailId := ''m0''\<rparr>) 0, Resume 0,
                 QueueEmail (exampleEmail\<lparr>emailId := ''m2''\<rparr>) 0]
              (newEmailService [succeedingProvider] (defaultConfig\<lparr>queueMaxSize := 1\<rparr>),
               startWorld)"
  obtain s w where sw: "?r = (s, w)" by (cases ?r)
  have "emailId exampleEmail \<notin> sentEmails (fst ?r)
        \<and> \<not> fst (enqueue (clock (snd ?r)) exampleEmail 3 (emailQueue (fst ?r)))
        \<and> processing (fst ?r)
        \<and> map (\<lambda>it. emailId (email it)) (queue (emailQueue (fst ?r))) = [''m2'']"
    by (simp add: ex_defs op_defs)
  then have h2: "emailId exampleEmail \<notin> sentEmails s
            \<and> \<not> fst (enqueue (clock w) exampleEmail 3 (emailQueue s))"
    and h3: "processing s"
    and h4: "map (\<lambda>it. emailId (email it)) (queue (emailQueue s)) = [''m2'']"
    unfolding sw by simp_all
  have h1: "maxSize ?q \<le> length (queue ?q)" by simp
  have e: "emailId exampleEmail = ''m1''" by (simp add: ex_defs)
  from C9_queue_full [of ?q 7 exampleEmail 3 s w] h1 h2 h3 h4
  show ?thesis unfolding sw e by metis
qed

text \<open>
  The claim as it stands fails when the call starts the loop and the entry at the head
  of the full queue has the id of the request. The queue of capacity 1 holds an entry of
  \<open>exampleEmail\<close> and the loop has been stopped. \<^verbatim>\<open>queueEmail\<close> with \<open>exampleEmail\<close>:
  \<^verbatim>\<open>enqueue\<close> fails and the call returns \<open>failed\<close> with ``Queue is full''; before it
  returns it starts the loop, whose first cycle takes the waiting entry, and
  \<^verbatim>\<open>processEmail\<close> stores a new Status \<open>pending\<close> under the id. The Status stored when
  the call returns is \<open>pending\<close>, and the queue is empty.
\<close>

theorem C9_stored_status_pending:
  "(let r = queueEmail exampleEmail 0
              (run [QueueEmail (exampleEmail\<lparr>emailId := ''m0''\<rparr>) 0, Resume 0,
                    QueueEmail exampleEmail 0, StopQueueProcessing]
                 (newEmailService [succeedingProvider] (defaultConfig\<lparr>queueMaxSize := 1\<rparr>),
                  startWorld))
    in (map_option (\<lambda>st. (status st, error st)) (fst r),
        map_option status (statusMap (fst (snd r)) ''m1''),
        map (\<lambda>it. emailId (email it)) (queue (emailQueue (fst (snd r))))))
   = (Some (Failed, Some ''Queue is full''), Some Pending, [])"
  by (simp add: ex_defs op_defs)

subsection \<open>Where the code departs from its documentation\<close>

text \<open>
  Claim C10 (what the code does at the failing input). \<^verbatim>\<open>queueEmail\<close> is called twice
  with one request. The first call starts the loop, whose first cycle takes the entry
  and begins to send; the second call stores a new Status \<open>queued\<close> and a second entry.
  The provider delivers: the id enters the sent-set, while the map shows \<open>queued\<close> under
  it. The provider then goes down and the next cycle of the loop processes the second
  entry: \<^verbatim>\<open>processEmail\<close> checks no sent-set, stores a new Status and ends it
  \<open>failed\<close>. The id is in the sent-set, the Status under it is \<open>failed\<close>, and that is what
  the idempotent path of \<^verbatim>\<open>sendEmail\<close> returns from then on.
\<close>

theorem C10_sent_id_with_failed_status:
  "(let s = fst (run [QueueEmail exampleEmail 0, QueueEmail exampleEmail 0, Resume 0,
                      Elapse 0 1, Resume 0, Resume 0]
                   (newEmailService [flakyProvider] defaultConfig, startWorld))
    in (emailId exampleEmail \<in> sentEmails s,
        map_option status (statusMap s (emailId exampleEmail)),
        map_option status (fst (sendEmail exampleEmail (s, startWorld)))))
   = (True, Some Failed, Some Failed)
   \<and> (let s = fst (run [QueueEmail exampleEmail 0, QueueEmail exampleEmail 0, Resume 0]
                   (newEmailService [flakyProvider] defaultConfig, startWorld))
    in (emailId exampleEmail \<in> sentEmails s,
        map_option status (statusMap s (emailId exampleEmail)),
        map (\<lambda>it. emailId (email it)) (queue (emailQueue s))))
   = (True, Some Queued, [''m1''])"
  by (simp add: ex_defs op_defs)

text \<open>
  Claim C3 (what the code does at the failing input). A queue that is processing holds
  one entry; the callback rejects every time. After each cycle of the loop the request
  is back in the queue, at its priority, with redelivery count 0, however many cycles
  \<open>n\<close> have run: \<^verbatim>\<open>enqueue\<close> builds a new entry with \<^verbatim>\<open>retryCount: 0\<close>, so the test
  \<^verbatim>\<open>item.retryCount < 3\<close> never fails and the entry is never dropped.
\<close>

theorem C3_requeue_resets_retry_count:
  "map (\<lambda>it. (email it, priority it, itemRetryCount it))
     (queue (fst (processCycles n (Some (\<lambda>e cw. (False, cw))) iv
        (\<lparr>queue = [\<lparr>email = e, priority = p, itemTimestamp = t, itemRetryCount = 0\<rparr>],
          queueProcessing = True, maxSize = Suc m\<rparr>, c, w))))
   = [(e, p, 0)]"
proof (induction n arbitrary: t w)
  case 0
  then show ?case by simp
next
  case (Suc n)
  have "processCycle (Some (\<lambda>e cw. (False, cw))) iv
        (\<lparr>queue = [\<lparr>email = e, priority = p, itemTimestamp = t, itemRetryCount = 0\<rparr>],
          queueProcessing = True, maxSize = Suc m\<rparr>, c, w)
      = (\<lparr>queue = [\<lparr>email = e, priority = p, itemTimestamp = clock w, itemRetryCount = 0\<rparr>],
          queueProcessing = True, maxSize = Suc m\<rparr>, c, sleep iv w)"
    by (simp add: processCycle_def isEmpty_def dequeue_def enqueue_def Let_def)
  then show ?case using Suc.IH[of "clock w" "sleep iv w"] by simp
qed

end
